theory Spec2Isabelle
  imports Complex_Main "HOL-Library.Sublist"
begin

section \<open>Configuration constants\<close>

text \<open>
  The module-level constants of \<^verbatim>\<open>ssh-brute.py\<close> (lines 15--23). Durations and
  timestamps are Python floats measured in seconds; they are modelled as real numbers,
  so floating-point rounding is not part of the model.
\<close>

definition MAX_THREADS :: nat where
  "MAX_THREADS = 5"

definition RETRY_DELAY :: real where
  "RETRY_DELAY = 2"

definition MAX_ERRORS_BEFORE_PAUSE :: nat where
  "MAX_ERRORS_BEFORE_PAUSE = 3"

definition PAUSE_DURATION :: real where
  "PAUSE_DURATION = 10"

text \<open>The dictionary \<^verbatim>\<open>PRIORITY_PATTERNS\<close>: its only key is 3.\<close>

definition PRIORITY_PATTERNS :: "int \<rightharpoonup> string list" where
  "PRIORITY_PATTERNS =
     [3 \<mapsto> [''AAA'', ''BBB'', ''CCC'', ''ADM'', ''PWD'', ''SYS'', ''ADM'', ''123'', ''QWE'']]"

section \<open>Command-line arguments and the character set\<close>

text \<open>
  The \<^verbatim>\<open>argparse\<close> namespace of \<^verbatim>\<open>main\<close>. The positional \<^verbatim>\<open>length\<close> has
  \<^verbatim>\<open>type=int\<close>, so it may be negative; the field is called \<open>length_arg\<close> because
  \<open>length\<close> is the list function of HOL.
\<close>

record args =
  host :: string
  username :: string
  length_arg :: int
  lower :: bool
  upper :: bool
  digits :: bool
  special :: string

text \<open>
  The namespace that \<^verbatim>\<open>main\<close> gets from the command line
  \<^verbatim>\<open>target root n [--lower] [--upper] [--digits] [--special s]\<close>; the default of
  \<^verbatim>\<open>--special\<close> is the empty string.
\<close>

definition cli :: "int \<Rightarrow> bool \<Rightarrow> bool \<Rightarrow> bool \<Rightarrow> string \<Rightarrow> args" where
  "cli n lo up dg sp =
     \<lparr>host = ''target'', username = ''root'', length_arg = n, lower = lo, upper = up,
      digits = dg, special = sp\<rparr>"

definition ascii_uppercase :: string where
  "ascii_uppercase = ''ABCDEFGHIJKLMNOPQRSTUVWXYZ''"

definition ascii_lowercase :: string where
  "ascii_lowercase = ''abcdefghijklmnopqrstuvwxyz''"

definition ascii_letters :: string where
  "ascii_letters = ascii_lowercase @ ascii_uppercase"

definition string_digits :: string where
  "string_digits = ''0123456789''"

text \<open>
  \<^verbatim>\<open>build_charset\<close> (lines 48--57). The test \<^verbatim>\<open>if self.args.special\<close> is Python
  truthiness of a string: true exactly when the string is not empty.
\<close>

definition build_charset :: "args \<Rightarrow> string" where
  "build_charset a =
     (if upper a then ascii_uppercase
      else if lower a then ascii_lowercase
      else if digits a then string_digits
      else if special a \<noteq> [] then special a
      else ascii_letters @ string_digits @ ''!@#$%^&*'')"

section \<open>The candidate generator\<close>

text \<open>
  \<^verbatim>\<open>itertools.product(pool, repeat=n)\<close>, as the Python documentation defines it:
  \<^verbatim>\<open>
  result = [[]]
  for pool in pools:
      result = [x+[y] for x in result for y in pool]
  \<close>
  with \<^verbatim>\<open>pools\<close> being \<open>n\<close> copies of the pool. The outer comprehension variable
  \<open>x\<close> ranges over the tuples built so far, the inner one \<open>y\<close> over the pool.
\<close>

primrec product_repeat :: "'a list \<Rightarrow> nat \<Rightarrow> 'a list list" where
  "product_repeat pool 0 = [[]]"
| "product_repeat pool (Suc n) =
     concat (map (\<lambda>x. map (\<lambda>y. x @ [y]) pool) (product_repeat pool n))"

datatype error = ValueError

text \<open>
  What is left of the body of \<^verbatim>\<open>optimized_generator\<close> (lines 59--69) is kept as
  the list of the emissions still to come: \<open>Prio p\<close> for an iteration of the first
  loop, \<open>Combo c\<close> for an iteration of the loop over \<^verbatim>\<open>itertools.product\<close>, and
  \<open>Fault\<close> where \<^verbatim>\<open>itertools.product\<close> raises \<^verbatim>\<open>ValueError\<close> because
  \<^verbatim>\<open>repeat\<close> is negative. A tuple of one-character strings joined by
  \<^verbatim>\<open>''.join\<close> is the string of those characters, which is the list itself.
\<close>

datatype item = Prio string | Combo string | Fault

definition priority_patterns :: "args \<Rightarrow> string list" where
  "priority_patterns a =
     (case PRIORITY_PATTERNS (length_arg a) of None \<Rightarrow> [] | Some ps \<Rightarrow> ps)"

definition gen_script :: "args \<Rightarrow> item list" where
  "gen_script a =
     map Prio (priority_patterns a) @
     (if length_arg a < 0 then [Fault]
      else map Combo (product_repeat (build_charset a) (nat (length_arg a))))"

datatype gen_result = Yield string | StopIteration | Raise error

text \<open>
  One call of \<^verbatim>\<open>next(gen)\<close>. The first argument is the value of
  \<^verbatim>\<open>self.shutdown\<close> at the moment of the call: only the second loop reads it
  (line 67), and \<^verbatim>\<open>break\<close> ends the generator for good.
\<close>

fun gen_next :: "bool \<Rightarrow> item list \<Rightarrow> gen_result \<times> item list" where
  "gen_next sd [] = (StopIteration, [])"
| "gen_next sd (Prio p # rest) = (Yield p, rest)"
| "gen_next sd (Combo c # rest) = (if sd then (StopIteration, []) else (Yield c, rest))"
| "gen_next sd (Fault # rest) = (Raise ValueError, [])"

text \<open>
  Driving the generator to its end. \<open>sd i\<close> is the value of \<^verbatim>\<open>self.shutdown\<close>
  seen by the \<open>i\<close>-th call of \<^verbatim>\<open>next\<close>. The result is the list of the values
  yielded, and the exception that ended the iteration, if it was not
  \<^verbatim>\<open>StopIteration\<close>.
\<close>

function gen_run :: "(nat \<Rightarrow> bool) \<Rightarrow> nat \<Rightarrow> item list \<Rightarrow> string list \<times> error option" where
  "gen_run sd i g =
     (case gen_next (sd i) g of
        (Yield y, g') \<Rightarrow> (case gen_run sd (Suc i) g' of (ys, e) \<Rightarrow> (y # ys, e))
      | (StopIteration, g') \<Rightarrow> ([], None)
      | (Raise e, g') \<Rightarrow> ([], Some e))"
  by pat_completeness auto
termination
proof (relation "measure (\<lambda>(sd, i, g). length g)")
  show "wf (measure (\<lambda>(sd, i, g). length g))"
    by simp
next
  fix sd :: "nat \<Rightarrow> bool" and i :: nat and g g' :: "item list" and r y
  assume "(r, g') = gen_next (sd i) g" and "r = Yield y"
  then have "gen_next (sd i) g = (Yield y, g')"
    by simp
  then have "length g' < length g"
    by (cases "(sd i, g)" rule: gen_next.cases) (auto split: if_splits)
  then show "((sd, Suc i, g'), (sd, i, g)) \<in> measure (\<lambda>(sd, i, g). length g)"
    by simp
qed

definition optimized_generator :: "args \<Rightarrow> (nat \<Rightarrow> bool) \<Rightarrow> string list \<times> error option" where
  "optimized_generator a sd = gen_run sd 0 (gen_script a)"

definition never :: "nat \<Rightarrow> bool" where
  "never i = False"

text \<open>
  The reading of ``odometer order'': the \<open>i\<close>-th string of length \<open>n\<close> is the numeral of
  \<open>i\<close> in base \<open>length pool\<close>, most significant digit first, the digit \<open>d\<close> written as
  \<open>pool ! d\<close>. Counting up changes the last position at every step.
\<close>

definition odometer :: "'a list \<Rightarrow> nat \<Rightarrow> nat \<Rightarrow> 'a list" where
  "odometer pool n i =
     map (\<lambda>j. pool ! ((i div length pool ^ (n - 1 - j)) mod length pool)) [0..<n]"

section \<open>The shared state of a run\<close>

text \<open>
  What the program prints and how long it sleeps are kept as a list of effects. The text
  of an exception (\<^verbatim>\<open>str(e)\<close>) comes from the libraries and is left out of the
  messages.
\<close>

datatype message =
    Msg_shutting_down
  | Msg_pausing real
  | Msg_unexpected
  | Msg_success string string
  | Msg_progress nat real real nat string
  | Msg_finished nat nat real

datatype effect = Print message | Sleep real

text \<open>
  The attributes of \<^verbatim>\<open>BruteForcer\<close> that change during a run (lines 29--38).
  \<^verbatim>\<open>queue.Queue\<close> is its list of items together with its counter of unfinished
  tasks.
\<close>

record run_state =
  found :: bool
  shutdown :: bool
  queue :: "string list"
  unfinished_tasks :: nat
  attempts :: nat
  start_time :: real
  last_print :: real
  connection_errors :: nat
  consecutive_errors :: nat
  last_error_time :: real

definition queue_maxsize :: nat where
  "queue_maxsize = 5000"

text \<open>\<^verbatim>\<open>__init__\<close>; \<open>t0\<close> is the value of \<^verbatim>\<open>time.time()\<close> at line 34.\<close>

definition init_state :: "real \<Rightarrow> run_state" where
  "init_state t0 =
     \<lparr>found = False, shutdown = False, queue = [], unfinished_tasks = 0, attempts = 0,
      start_time = t0, last_print = 0, connection_errors = 0, consecutive_errors = 0,
      last_error_time = 0\<rparr>"

text \<open>
  \<^verbatim>\<open>Queue.put(x, block=False)\<close> raises \<^verbatim>\<open>queue.Full\<close> (here \<open>None\<close>) when the
  queue holds \<^verbatim>\<open>maxsize\<close> items; \<^verbatim>\<open>Queue.get_nowait()\<close> raises
  \<^verbatim>\<open>queue.Empty\<close> (here \<open>None\<close>) when it holds none. \<^verbatim>\<open>Queue.task_done()\<close>
  raises \<^verbatim>\<open>ValueError\<close> when no task is unfinished; every call of it in
  \<^verbatim>\<open>worker\<close> follows a successful \<^verbatim>\<open>get_nowait\<close> of an item that was put before,
  so that case does not arise and the counter is simply decremented.
\<close>

definition put_nowait :: "run_state \<Rightarrow> string \<Rightarrow> run_state option" where
  "put_nowait st x =
     (if queue_maxsize \<le> length (queue st) then None
      else Some (st\<lparr>queue := queue st @ [x], unfinished_tasks := unfinished_tasks st + 1\<rparr>))"

definition get_nowait :: "run_state \<Rightarrow> (string \<times> run_state) option" where
  "get_nowait st =
     (case queue st of [] \<Rightarrow> None | x # q \<Rightarrow> Some (x, st\<lparr>queue := q\<rparr>))"

definition task_done :: "run_state \<Rightarrow> run_state" where
  "task_done st = st\<lparr>unfinished_tasks := unfinished_tasks st - 1\<rparr>"

text \<open>
  \<^verbatim>\<open>signal_handler\<close> (lines 42--46): both assignments are made inside one
  \<^verbatim>\<open>with self.lock\<close>.
\<close>

definition signal_handler :: "run_state \<Rightarrow> run_state \<times> effect list" where
  "signal_handler st = (st\<lparr>shutdown := True, found := True\<rparr>, [Print Msg_shutting_down])"

text \<open>
  \<^verbatim>\<open>handle_connection_error\<close> (lines 71--88), all of it inside \<^verbatim>\<open>with self.lock\<close>.
  \<open>now\<close> is the value of \<^verbatim>\<open>time.time()\<close> at line 75 and \<open>jitter\<close> the value of
  \<^verbatim>\<open>random.uniform(0, 1)\<close> at line 85.
\<close>

definition handle_connection_error :: "run_state \<Rightarrow> real \<Rightarrow> real \<Rightarrow> run_state \<times> effect list" where
  "handle_connection_error st now jitter =
     (let st1 = st\<lparr>connection_errors := connection_errors st + 1\<rparr>;
          st2 = st1\<lparr>consecutive_errors := consecutive_errors st1 + 1\<rparr>
      in if MAX_ERRORS_BEFORE_PAUSE \<le> consecutive_errors st2 \<and> now - last_error_time st2 < 5
         then (st2\<lparr>consecutive_errors := 0, last_error_time := now\<rparr>,
               [Print (Msg_pausing PAUSE_DURATION), Sleep PAUSE_DURATION])
         else (st2\<lparr>last_error_time := now\<rparr>, [Sleep (RETRY_DELAY + jitter)]))"

text \<open>
  The outcome of the connection attempt of \<^verbatim>\<open>try_connect\<close> (lines 93--116), which is
  the work of \<^verbatim>\<open>socket\<close> and \<^verbatim>\<open>paramiko\<close>: no exception (\<open>Success\<close>),
  \<^verbatim>\<open>paramiko.AuthenticationException\<close> (\<open>AuthenticationRejected\<close>),
  \<^verbatim>\<open>paramiko.SSHException\<close> or \<^verbatim>\<open>socket.error\<close> (\<open>TransportError\<close>), any other
  \<^verbatim>\<open>Exception\<close> (\<open>UnexpectedError\<close>).
\<close>

datatype outcome = Success | AuthenticationRejected | TransportError | UnexpectedError

text \<open>
  \<^verbatim>\<open>try_connect\<close> (lines 90--134) from the outcome on: the returned flag, the new
  state, and the effects of the handlers. The short random sleep before
  \<^verbatim>\<open>ssh.connect\<close> (line 104) is part of the connection attempt and is not recorded.
\<close>

fun try_connect :: "run_state \<Rightarrow> outcome \<Rightarrow> real \<Rightarrow> real \<Rightarrow> bool \<times> run_state \<times> effect list" where
  "try_connect st Success now jitter = (True, st, [])"
| "try_connect st AuthenticationRejected now jitter = (False, st\<lparr>consecutive_errors := 0\<rparr>, [])"
| "try_connect st TransportError now jitter =
     (case handle_connection_error st now jitter of (st', es) \<Rightarrow> (False, st', es))"
| "try_connect st UnexpectedError now jitter = (False, st, [Print Msg_unexpected])"

section \<open>The threads of a run\<close>

text \<open>
  A run is an interleaving of atomic steps of the control thread (\<^verbatim>\<open>run\<close>), of the
  worker threads (\<^verbatim>\<open>worker\<close>) and of the signal handler. Each thread has a program
  counter that names the line it executes next.
\<close>

datatype cpc =
    Fill_test | Fill_put | Start_workers
  | Refill_test | Refill_size | Refill_put | Refill_sleep
  | Cleanup | Join | Done | Crashed

datatype wpc =
    W_test | W_get | W_check string | W_connect string
  | W_success string | W_count string | W_task_done | W_exit

record sys =
  rs :: run_state
  gen :: "item list"
  ctl :: cpc
  workers :: "wpc list"
  out :: "effect list"

definition init :: "args \<Rightarrow> real \<Rightarrow> sys" where
  "init a t0 =
     \<lparr>rs = init_state t0, gen = gen_script a, ctl = Fill_test, workers = [], out = []\<rparr>"

text \<open>
  One step of \<^verbatim>\<open>run\<close> (lines 167--207). \<open>now\<close> is the clock, read only at line 207.
  In the first loop every exception but \<^verbatim>\<open>StopIteration\<close> is caught and followed by
  a sleep; in the second loop only \<^verbatim>\<open>StopIteration\<close> is caught, so any other
  exception leaves \<^verbatim>\<open>run\<close> (\<open>Crashed\<close>). \<^verbatim>\<open>queue.join()\<close> returns once no task
  is unfinished.
\<close>

fun control_step :: "real \<Rightarrow> sys \<Rightarrow> sys" where
  "control_step now s =
     (case ctl s of
        Fill_test \<Rightarrow>
          (if \<not> shutdown (rs s) \<and> length (queue (rs s)) < 1000
           then s\<lparr>ctl := Fill_put\<rparr> else s\<lparr>ctl := Start_workers\<rparr>)
      | Fill_put \<Rightarrow>
          (case gen_next (shutdown (rs s)) (gen s) of
             (Yield x, g') \<Rightarrow>
               (case put_nowait (rs s) x of
                  Some st' \<Rightarrow> s\<lparr>rs := st', gen := g', ctl := Fill_test\<rparr>
                | None \<Rightarrow> s\<lparr>gen := g', out := out s @ [Sleep (1 / 10)], ctl := Fill_test\<rparr>)
           | (StopIteration, g') \<Rightarrow> s\<lparr>gen := g', ctl := Start_workers\<rparr>
           | (Raise e, g') \<Rightarrow> s\<lparr>gen := g', out := out s @ [Sleep (1 / 10)], ctl := Fill_test\<rparr>)
      | Start_workers \<Rightarrow>
          s\<lparr>workers := replicate (min MAX_THREADS (length (queue (rs s)))) W_test,
            ctl := Refill_test\<rparr>
      | Refill_test \<Rightarrow>
          (if \<not> shutdown (rs s) \<and> \<not> found (rs s)
           then s\<lparr>ctl := Refill_size\<rparr> else s\<lparr>ctl := Cleanup\<rparr>)
      | Refill_size \<Rightarrow>
          (if length (queue (rs s)) < 500
           then s\<lparr>ctl := Refill_put\<rparr> else s\<lparr>ctl := Refill_sleep\<rparr>)
      | Refill_put \<Rightarrow>
          (case gen_next (shutdown (rs s)) (gen s) of
             (Yield x, g') \<Rightarrow>
               (case put_nowait (rs s) x of
                  Some st' \<Rightarrow> s\<lparr>rs := st', gen := g', ctl := Refill_sleep\<rparr>
                | None \<Rightarrow> s\<lparr>gen := g', ctl := Crashed\<rparr>)
           | (StopIteration, g') \<Rightarrow> s\<lparr>gen := g', ctl := Cleanup\<rparr>
           | (Raise e, g') \<Rightarrow> s\<lparr>gen := g', ctl := Crashed\<rparr>)
      | Refill_sleep \<Rightarrow> s\<lparr>out := out s @ [Sleep (1 / 10)], ctl := Refill_test\<rparr>
      | Cleanup \<Rightarrow> s\<lparr>rs := (rs s)\<lparr>shutdown := True\<rparr>, ctl := Join\<rparr>
      | Join \<Rightarrow>
          (if unfinished_tasks (rs s) = 0
           then s\<lparr>out := out s @
                    [Print (Msg_finished (attempts (rs s)) (connection_errors (rs s))
                              (now - start_time (rs s)))],
                  ctl := Done\<rparr>
           else s)
      | Done \<Rightarrow> s
      | Crashed \<Rightarrow> s)"

text \<open>
  One step of \<^verbatim>\<open>worker\<close> (lines 136--165) for a thread whose program counter is
  \<open>pc\<close>: the new shared state, the effects, and the new program counter. \<open>oc\<close> is the
  outcome of the connection attempt, \<open>now\<close> the clock and \<open>jitter\<close> the random number
  of that step.
\<close>

fun worker_step ::
  "args \<Rightarrow> outcome \<Rightarrow> real \<Rightarrow> real \<Rightarrow> run_state \<Rightarrow> wpc \<Rightarrow> run_state \<times> effect list \<times> wpc" where
  "worker_step a oc now jitter st W_test =
     (if \<not> shutdown st \<and> \<not> found st then (st, [], W_get) else (st, [], W_exit))"
| "worker_step a oc now jitter st W_get =
     (case get_nowait st of
        None \<Rightarrow> (st, [], W_exit)
      | Some (password, st') \<Rightarrow> (st', [], W_check password))"
| "worker_step a oc now jitter st (W_check password) =
     (if shutdown st \<or> found st then (task_done st, [], W_exit)
      else (st, [], W_connect password))"
| "worker_step a oc now jitter st (W_connect password) =
     (case try_connect st oc now jitter of
        (ok, st', es) \<Rightarrow> (st', es, if ok then W_success password else W_count password))"
| "worker_step a oc now jitter st (W_success password) =
     (task_done (st\<lparr>found := True\<rparr>), [Print (Msg_success (username a) password)], W_exit)"
| "worker_step a oc now jitter st (W_count password) =
     (let st1 = st\<lparr>attempts := attempts st + 1\<rparr>
      in if now - last_print st1 > 1
         then (st1\<lparr>last_print := now\<rparr>,
               [Print (Msg_progress (attempts st1)
                        (real (attempts st1) / max 1 (now - start_time st1))
                        (now - start_time st1) (connection_errors st1) password)],
               W_task_done)
         else (st1, [], W_task_done))"
| "worker_step a oc now jitter st W_task_done = (task_done st, [], W_test)"
| "worker_step a oc now jitter st W_exit = (st, [], W_exit)"

text \<open>
  The atomic steps of a run: the arrival of the interrupt signal, a step of the control
  thread, a step of worker thread \<open>i\<close>. A step of a thread that does not exist changes
  nothing.
\<close>

datatype action = Signal | Control real | Work nat outcome real real

fun exec :: "args \<Rightarrow> sys \<Rightarrow> action \<Rightarrow> sys" where
  "exec a s Signal =
     (case signal_handler (rs s) of (st', es) \<Rightarrow> s\<lparr>rs := st', out := out s @ es\<rparr>)"
| "exec a s (Control now) = control_step now s"
| "exec a s (Work i oc now jitter) =
     (if i < length (workers s)
      then (case worker_step a oc now jitter (rs s) (workers s ! i) of
              (st', es, pc') \<Rightarrow>
                s\<lparr>rs := st', out := out s @ es, workers := (workers s)[i := pc']\<rparr>)
      else s)"

text \<open>The state after a sequence of steps, and the states passed on the way.\<close>

fun execs :: "args \<Rightarrow> sys \<Rightarrow> action list \<Rightarrow> sys" where
  "execs a s [] = s"
| "execs a s (x # xs) = execs a (exec a s x) xs"

fun exec_trace :: "args \<Rightarrow> sys \<Rightarrow> action list \<Rightarrow> sys list" where
  "exec_trace a s [] = [s]"
| "exec_trace a s (x # xs) = s # exec_trace a (exec a s x) xs"

text \<open>The number of places where a list of flags goes from false to true.\<close>

fun rises :: "bool list \<Rightarrow> nat" where
  "rises (x # y # zs) = (if \<not> x \<and> y then 1 else 0) + rises (y # zs)"
| "rises zs = 0"

text \<open>
  The candidates on which a run attempts a connection, in order: a step of a worker at
  line 147 calls \<^verbatim>\<open>try_connect\<close> with the password it holds.
\<close>

fun probed :: "sys \<Rightarrow> action \<Rightarrow> string list" where
  "probed s (Work i oc now jitter) =
     (if i < length (workers s)
      then (case workers s ! i of W_connect password \<Rightarrow> [password] | _ \<Rightarrow> [])
      else [])"
| "probed s Signal = []"
| "probed s (Control now) = []"

fun probes :: "args \<Rightarrow> sys \<Rightarrow> action list \<Rightarrow> string list" where
  "probes a s [] = []"
| "probes a s (x # xs) = probed s x @ probes a (exec a s x) xs"

text \<open>The string an emission of the generator yields.\<close>

fun item_value :: "item \<Rightarrow> string" where
  "item_value (Prio p) = p"
| "item_value (Combo c) = c"
| "item_value Fault = []"

text \<open>The durations of the sleeps among a list of effects, in order.\<close>

fun sleeps :: "effect list \<Rightarrow> real list" where
  "sleeps [] = []"
| "sleeps (Sleep d # es) = d # sleeps es"
| "sleeps (Print m # es) = sleeps es"

text \<open>
  The program counters of the second loop of \<^verbatim>\<open>run\<close> (the steady state), and
  those after it.
\<close>

definition steady :: "cpc \<Rightarrow> bool" where
  "steady c \<longleftrightarrow> c = Refill_test \<or> c = Refill_size \<or> c = Refill_put \<or> c = Refill_sleep"

definition stopped :: "cpc \<Rightarrow> bool" where
  "stopped c \<longleftrightarrow> c = Cleanup \<or> c = Join \<or> c = Done \<or> c = Crashed"

text \<open>
  The invariant of the queue: the first loop puts only below 1000 items, the second loop
  only below 500, and the workers only take items out.
\<close>

definition run_inv :: "sys \<Rightarrow> bool" where
  "run_inv s \<longleftrightarrow>
     length (queue (rs s)) \<le> 1000 \<and>
     (ctl s = Fill_put \<longrightarrow> length (queue (rs s)) < 1000) \<and>
     (ctl s = Refill_put \<longrightarrow> length (queue (rs s)) < 500)"

section \<open>Concrete states and runs\<close>

text \<open>
  Two consecutive errors so far, the last one at time 100.
\<close>

definition burst_state :: run_state where
  "burst_state = (init_state 0)\<lparr>consecutive_errors := 2, last_error_time := 100\<rparr>"

text \<open>
  A run of \<^verbatim>\<open>target root 1 --special a\<close>, whose only candidate is \<open>a\<close>: the control
  thread fills the queue and starts one worker, the worker takes \<open>a\<close> and the connection
  succeeds (\<open>connect_run\<close> ends there, before line 148); in \<open>success_run\<close> the worker then
  records the success and the control thread finishes.
\<close>

definition connect_run :: "action list" where
  "connect_run =
     [Control 0, Control 0, Control 0, Control 0, Control 0,
      Work 0 Success 1 0, Work 0 Success 1 0, Work 0 Success 1 0, Work 0 Success 1 0]"

definition success_run :: "action list" where
  "success_run =
     [Control 0, Control 0, Control 0, Control 0, Control 0,
      Work 0 Success 1 0, Work 0 Success 1 0, Work 0 Success 1 0, Work 0 Success 1 0,
      Work 0 Success 1 0,
      Control 2, Control 2, Control 2]"

text \<open>
  A run of \<^verbatim>\<open>target root 3 --digits\<close> (1009 candidates) into the steady state: the
  control thread puts 1000 candidates (two steps each), leaves the first loop and starts
  five workers; worker 0 takes 501 candidates, each rejected by the server (six steps
  each); the control thread then passes the tests of lines 187 and 189. \<open>steady_state\<close>
  is the state this run ends in.
\<close>

definition steady_run :: "action list" where
  "steady_run =
     replicate (2 * 1000) (Control 0) @ [Control 0, Control 0] @
     replicate (6 * 501) (Work 0 AuthenticationRejected 1 0) @ [Control 0, Control 0]"

definition steady_state :: sys where
  "steady_state =
     execs (cli 3 False False True '''') (init (cli 3 False False True '''') 0) steady_run"


definition exhausted_run :: "action list" where
  "exhausted_run =
     [Control 0, Control 0, Control 0, Control 0, Control 0, Control 0, Control 0,
      Work 0 Success 1 0, Work 0 Success 1 0, Work 0 Success 1 0,
      Control 0, Control 0, Control 0, Control 0]"


definition exhausted_state :: sys where
  "exhausted_state =
     execs (cli 1 False False False ''ab'') (init (cli 1 False False False ''ab'') 0)
       exhausted_run"

section \<open>The candidate generator: properties\<close>

lemma product_repeat_n_lists: "product_repeat pool n = map rev (List.n_lists n pool)"
  by (induction n) (simp_all add: map_concat comp_def)

lemma length_product_repeat: "length (product_repeat pool n) = length pool ^ n"
  by (simp add: product_repeat_n_lists length_n_lists)

lemma set_product_repeat:
  "set (product_repeat pool n) = {xs. length xs = n \<and> set xs \<subseteq> set pool}"
proof -
  have "rev ` {ys. length ys = n \<and> set ys \<subseteq> set pool} = {xs. length xs = n \<and> set xs \<subseteq> set pool}"
    (is "?L = ?R")
  proof
    show "?L \<subseteq> ?R" by auto
    show "?R \<subseteq> ?L"
    proof
      fix xs assume "xs \<in> ?R"
      then have "rev xs \<in> {ys. length ys = n \<and> set ys \<subseteq> set pool}" by simp
      then have "rev (rev xs) \<in> ?L" by (rule imageI)
      then show "xs \<in> ?L" by simp
    qed
  qed
  then show ?thesis
    by (simp add: product_repeat_n_lists set_n_lists)
qed

lemma distinct_product_repeat: "distinct pool \<Longrightarrow> distinct (product_repeat pool n)"
  by (simp add: product_repeat_n_lists distinct_map distinct_n_lists)

lemma product_repeat_not_Nil: "pool \<noteq> [] \<Longrightarrow> product_repeat pool n \<noteq> []"
  using length_product_repeat [of pool n] by (cases "product_repeat pool n") auto

lemma not_distinct_product_repeat:
  assumes "\<not> distinct pool" and "0 < n"
  shows "\<not> distinct (product_repeat pool n)"
proof -
  from assms(2) obtain m where n: "n = Suc m"
    by (cases n) auto
  from assms(1) have "pool \<noteq> []"
    by auto
  then obtain x xs where p: "product_repeat pool m = x # xs"
    using product_repeat_not_Nil [of pool m] by (cases "product_repeat pool m") auto
  have "inj_on (\<lambda>y. x @ [y]) (set pool)"
    by (rule inj_onI) simp
  with assms(1) have "\<not> distinct (map (\<lambda>y. x @ [y]) pool)"
    by (simp add: distinct_map)
  with n p show ?thesis
    by simp
qed

lemma distinct_product_repeat_iff:
  "distinct (product_repeat pool n) \<longleftrightarrow> distinct pool \<or> n = 0"
  using not_distinct_product_repeat [of pool n] distinct_product_repeat [of pool n]
  by (cases "n = 0") auto

lemma nth_concat_blocks:
  "i < length xs * length pool \<Longrightarrow>
   concat (map (\<lambda>x. map (f x) pool) xs) ! i = f (xs ! (i div length pool)) (pool ! (i mod length pool))"
proof (induction xs arbitrary: i)
  case Nil
  then show ?case by simp
next
  case (Cons x xs)
  show ?case
  proof (cases "i < length pool")
    case True
    then show ?thesis by (simp add: nth_append)
  next
    case False
    then have ge: "length pool \<le> i" by simp
    have pos: "0 < length pool" using Cons.prems by (cases pool) auto
    from ge Cons.prems have lt: "i - length pool < length xs * length pool" by simp
    have d: "i div length pool = Suc ((i - length pool) div length pool)"
      using ge pos by (simp add: le_div_geq)
    have m: "i mod length pool = (i - length pool) mod length pool"
      using ge by (simp add: le_mod_geq)
    show ?thesis
      using False Cons.IH [OF lt] by (simp add: nth_append d m)
  qed
qed

lemma odometer_Suc:
  "odometer pool (Suc n) i = odometer pool n (i div length pool) @ [pool ! (i mod length pool)]"
proof -
  have "\<And>j. j < n \<Longrightarrow> (i div length pool ^ (Suc n - 1 - j)) = (i div length pool) div length pool ^ (n - 1 - j)"
  proof -
    fix j assume "j < n"
    then have "Suc n - 1 - j = Suc (n - 1 - j)" by simp
    then show "(i div length pool ^ (Suc n - 1 - j)) = (i div length pool) div length pool ^ (n - 1 - j)"
      by (simp add: div_mult2_eq)
  qed
  then show ?thesis
    by (simp add: odometer_def)
qed

lemma product_repeat_nth:
  "i < length pool ^ n \<Longrightarrow> product_repeat pool n ! i = odometer pool n i"
proof (induction n arbitrary: i)
  case 0
  then show ?case by (simp add: odometer_def)
next
  case (Suc n)
  have pos: "0 < length pool" using Suc.prems by (cases pool) auto
  from Suc.prems have "i < length pool ^ n * length pool" by (simp add: mult.commute)
  then have lt: "i < length (product_repeat pool n) * length pool"
    by (simp add: length_product_repeat)
  have "i div length pool < length pool ^ n"
    using Suc.prems pos by (simp add: less_mult_imp_div_less mult.commute)
  then have ih: "product_repeat pool n ! (i div length pool) = odometer pool n (i div length pool)"
    by (rule Suc.IH)
  show ?case
    using nth_concat_blocks [OF lt, of "\<lambda>x y. x @ [y]"] ih by (simp add: odometer_Suc)
qed

declare gen_run.simps [simp del]

lemma gen_run_Nil: "gen_run sd i [] = ([], None)"
  by (simp add: gen_run.simps)

lemma gen_run_Prio:
  "gen_run sd i (Prio p # g) = (case gen_run sd (Suc i) g of (ys, e) \<Rightarrow> (p # ys, e))"
  by (subst gen_run.simps) simp

lemma gen_run_Combo:
  "gen_run sd i (Combo c # g) =
     (if sd i then ([], None) else (case gen_run sd (Suc i) g of (ys, e) \<Rightarrow> (c # ys, e)))"
  by (subst gen_run.simps) simp

lemma gen_run_Fault: "gen_run sd i (Fault # g) = ([], Some ValueError)"
  by (subst gen_run.simps) simp

lemma gen_run_map_Prio:
  "gen_run sd i (map Prio ps @ g) =
     (case gen_run sd (i + length ps) g of (ys, e) \<Rightarrow> (ps @ ys, e))"
  by (induction ps arbitrary: i) (auto simp: gen_run_Prio split: prod.splits)

lemma gen_run_map_Combo_prefix:
  "prefix (fst (gen_run sd i (map Combo cs))) cs \<and> snd (gen_run sd i (map Combo cs)) = None"
proof (induction cs arbitrary: i)
  case Nil
  then show ?case by (simp add: gen_run_Nil)
next
  case (Cons c cs)
  from Cons.IH [of "Suc i"] show ?case
    by (cases "gen_run sd (Suc i) (map Combo cs)") (simp add: gen_run_Combo)
qed

lemma gen_run_map_Combo_never:
  "gen_run never i (map Combo cs) = (cs, None)"
  by (induction cs arbitrary: i) (auto simp: gen_run_Nil gen_run_Combo never_def)

lemma priority_patterns_cases:
  "priority_patterns a =
     (if length_arg a = 3
      then [''AAA'', ''BBB'', ''CCC'', ''ADM'', ''PWD'', ''SYS'', ''ADM'', ''123'', ''QWE'']
      else [])"
  by (simp add: priority_patterns_def PRIORITY_PATTERNS_def)

lemma priority_patterns_Some:
  "PRIORITY_PATTERNS (length_arg a) = Some ps \<Longrightarrow> priority_patterns a = ps \<and> length_arg a = 3"
  by (auto simp: priority_patterns_def PRIORITY_PATTERNS_def split: if_splits)

lemma optimized_generator_nonneg:
  "0 \<le> length_arg a \<Longrightarrow>
   optimized_generator a sd =
     (case gen_run sd (length (priority_patterns a))
             (map Combo (product_repeat (build_charset a) (nat (length_arg a)))) of
        (ys, e) \<Rightarrow> (priority_patterns a @ ys, e))"
  by (simp add: optimized_generator_def gen_script_def gen_run_map_Prio)

lemma optimized_generator_neg:
  "length_arg a < 0 \<Longrightarrow> optimized_generator a sd = ([], Some ValueError)"
  by (simp add: optimized_generator_def gen_script_def priority_patterns_cases gen_run_Fault)

lemma optimized_generator_never:
  "0 \<le> length_arg a \<Longrightarrow>
   optimized_generator a never =
     (priority_patterns a @ product_repeat (build_charset a) (nat (length_arg a)), None)"
  by (simp add: optimized_generator_nonneg gen_run_map_Combo_never)

lemma optimized_generator_split:
  assumes "0 \<le> length_arg a"
  shows "\<exists>ys. optimized_generator a sd = (priority_patterns a @ ys, None) \<and>
              prefix ys (product_repeat (build_charset a) (nat (length_arg a)))"
proof -
  let ?g = "gen_run sd (length (priority_patterns a))
              (map Combo (product_repeat (build_charset a) (nat (length_arg a))))"
  obtain ys e where r: "?g = (ys, e)" by (cases ?g)
  with gen_run_map_Combo_prefix [of sd "length (priority_patterns a)"
      "product_repeat (build_charset a) (nat (length_arg a))"]
  have "prefix ys (product_repeat (build_charset a) (nat (length_arg a)))" and "e = None"
    by simp_all
  with r assms show ?thesis
    by (simp add: optimized_generator_nonneg)
qed

text \<open>
  Claim C1. When the priority table has an entry \<open>ps\<close> for the requested length, the
  first \<open>length ps\<close> values of the generator are \<open>ps\<close>, verbatim and in table order,
  whatever the character set is and whatever the shutdown flag shows at each call; what
  follows them is an initial segment of the exhaustive enumeration, and the iteration
  ends without an exception.
\<close>

theorem C1_priority_patterns_first:
  assumes "PRIORITY_PATTERNS (length_arg a) = Some ps"
  shows "take (length ps) (fst (optimized_generator a sd)) = ps \<and>
         prefix (drop (length ps) (fst (optimized_generator a sd)))
           (product_repeat (build_charset a) (nat (length_arg a))) \<and>
         snd (optimized_generator a sd) = None"
proof -
  from assms have ps: "priority_patterns a = ps" and "0 \<le> length_arg a"
    using priority_patterns_Some [OF assms] by simp_all
  then obtain ys where "optimized_generator a sd = (ps @ ys, None)"
    and "prefix ys (product_repeat (build_charset a) (nat (length_arg a)))"
    using optimized_generator_split [of a sd] by auto
  then show ?thesis by simp
qed

text \<open>
  With the character set \<open>ab\<close>, length 3 and the shutdown flag set from the start, the
  nine patterns are still the first nine values.
\<close>

theorem C1_priority_patterns_first_witness:
  "PRIORITY_PATTERNS (length_arg (cli 3 False False False ''ab'')) =
     Some [''AAA'', ''BBB'', ''CCC'', ''ADM'', ''PWD'', ''SYS'', ''ADM'', ''123'', ''QWE''] \<and>
   take 9 (fst (optimized_generator (cli 3 False False False ''ab'') (\<lambda>i. True))) =
     [''AAA'', ''BBB'', ''CCC'', ''ADM'', ''PWD'', ''SYS'', ''ADM'', ''123'', ''QWE'']"
proof -
  have h: "PRIORITY_PATTERNS (length_arg (cli 3 False False False ''ab'')) =
     Some [''AAA'', ''BBB'', ''CCC'', ''ADM'', ''PWD'', ''SYS'', ''ADM'', ''123'', ''QWE'']"
    by (simp add: cli_def PRIORITY_PATTERNS_def)
  show ?thesis
    using h C1_priority_patterns_first [OF h, of "\<lambda>i. True"] by (simp add: numeral_eq_Suc)
qed

text \<open>
  Claim C2 as stated fails for a character string with a repeated character, which
  \<^verbatim>\<open>--special aa\<close> gives: the only string of length 1 over it is yielded twice.
\<close>

theorem C2_repeated_character_counterexample:
  "build_charset (cli 1 False False False ''aa'') = ''aa'' \<and>
   fst (optimized_generator (cli 1 False False False ''aa'') never) = [''a'', ''a''] \<and>
   \<not> distinct (fst (optimized_generator (cli 1 False False False ''aa'') never))"
  by (simp add: optimized_generator_never cli_def build_charset_def priority_patterns_cases)

text \<open>
  Claim C2, amended. For a non-negative length \<open>n\<close> and the character string \<open>pool\<close> of
  length \<open>k\<close>, without cancellation the generator yields the priority patterns and then
  the \<open>k ^ n\<close> entries of the product, the \<open>i\<close>-th of them being the odometer reading
  of \<open>i\<close> (rightmost position fastest, digits in the order of the string). These are
  exactly the strings of length \<open>n\<close> over the characters of \<open>pool\<close>, and each occurs
  once exactly when \<open>pool\<close> has no repeated character or \<open>n\<close> is 0.
\<close>

theorem C2_exhaustive_odometer:
  "0 \<le> length_arg a \<Longrightarrow>
   (let pool = build_charset a; n = nat (length_arg a)
    in optimized_generator a never = (priority_patterns a @ product_repeat pool n, None) \<and>
       length (product_repeat pool n) = length pool ^ n \<and>
       (\<forall>i < length pool ^ n. product_repeat pool n ! i = odometer pool n i) \<and>
       set (product_repeat pool n) = {xs. length xs = n \<and> set xs \<subseteq> set pool} \<and>
       (distinct (product_repeat pool n) \<longleftrightarrow> distinct pool \<or> n = 0))"
  by (simp add: Let_def optimized_generator_never length_product_repeat product_repeat_nth
      set_product_repeat distinct_product_repeat_iff)

text \<open>The example of the claim: character set \<open>ab\<close>, length 2.\<close>

theorem C2_exhaustive_odometer_witness:
  "0 \<le> length_arg (cli 2 False False False ''ab'') \<and>
   distinct (build_charset (cli 2 False False False ''ab'')) \<and>
   optimized_generator (cli 2 False False False ''ab'') never =
     ([''aa'', ''ab'', ''ba'', ''bb''], None) \<and>
   distinct (product_repeat (build_charset (cli 2 False False False ''ab'')) 2)"
  using C2_exhaustive_odometer [of "cli 2 False False False ''ab''"]
  by (simp add: cli_def build_charset_def priority_patterns_cases Let_def numeral_2_eq_2)

text \<open>
  Claim C9 as stated fails for the digits and length 3: the generator yields the nine
  priority patterns and then all \<open>10 ^ 3\<close> strings.
\<close>

theorem C9_priority_patterns_counterexample:
  "\<not> length (fst (optimized_generator (cli 3 False False True '''') never))
       \<le> length (build_charset (cli 3 False False True '''')) ^
           nat (length_arg (cli 3 False False True ''''))"
  by (simp add: optimized_generator_never length_product_repeat priority_patterns_cases
      cli_def build_charset_def string_digits_def)

text \<open>
  Claim C9, amended. The generator yields at most \<open>p + k ^ L\<close> candidates, where \<open>k\<close> is
  the length of the character string and \<open>p\<close> the number of priority patterns for the
  length \<open>L\<close>: nine for length 3 and none otherwise.
\<close>

theorem C9_bound:
  "length (fst (optimized_generator a sd)) \<le>
     length (priority_patterns a) + length (build_charset a) ^ nat (length_arg a) \<and>
   length (priority_patterns a) = (if length_arg a = 3 then 9 else 0)"
proof (cases "0 \<le> length_arg a")
  case True
  then obtain ys where "optimized_generator a sd = (priority_patterns a @ ys, None)"
    and "prefix ys (product_repeat (build_charset a) (nat (length_arg a)))"
    using optimized_generator_split [of a sd] by auto
  then show ?thesis
    using prefix_length_le [of ys "product_repeat (build_charset a) (nat (length_arg a))"]
    by (simp add: length_product_repeat priority_patterns_cases)
next
  case False
  then show ?thesis
    by (simp add: optimized_generator_neg priority_patterns_cases)
qed

section \<open>The threads of a run: properties\<close>

lemma handle_connection_error_flags:
  "found (fst (handle_connection_error st now jitter)) = found st \<and>
   shutdown (fst (handle_connection_error st now jitter)) = shutdown st \<and>
   queue (fst (handle_connection_error st now jitter)) = queue st \<and>
   attempts (fst (handle_connection_error st now jitter)) = attempts st"
  by (simp add: handle_connection_error_def Let_def)

lemma try_connect_flags:
  assumes "try_connect st oc now jitter = (ok, st', es)"
  shows "found st' = found st \<and> shutdown st' = shutdown st \<and> queue st' = queue st \<and>
         attempts st' = attempts st \<and> (ok \<longleftrightarrow> oc = Success)"
proof (cases oc)
  case TransportError
  obtain st1 es1 where h: "handle_connection_error st now jitter = (st1, es1)"
    by (cases "handle_connection_error st now jitter")
  with assms TransportError have "st' = st1" and "\<not> ok"
    by simp_all
  with handle_connection_error_flags [of st now jitter] h TransportError show ?thesis
    by simp
qed (use assms in auto)

lemma worker_step_flags:
  assumes "worker_step a oc now jitter st pc = (st', es, pc')"
  shows "shutdown st' = shutdown st"
    and "found st' = (found st \<or> (\<exists>pw. pc = W_success pw))"
    and "length (queue st') \<le> length (queue st)"
    and "(pc' = W_success pw) = (pc = W_connect pw \<and> oc = Success)"
proof -
  have "shutdown st' = shutdown st \<and> found st' = (found st \<or> (\<exists>pw. pc = W_success pw)) \<and>
        length (queue st') \<le> length (queue st) \<and>
        ((pc' = W_success pw) = (pc = W_connect pw \<and> oc = Success))"
  proof (cases pc)
    case (W_connect p)
    obtain ok st1 es1 where t: "try_connect st oc now jitter = (ok, st1, es1)"
      by (cases "try_connect st oc now jitter") auto
    with assms W_connect have "st' = st1" and "pc' = (if ok then W_success p else W_count p)"
      by simp_all
    with try_connect_flags [OF t] W_connect show ?thesis
      by auto
  next
    case W_get
    with assms show ?thesis
      by (cases "queue st") (auto simp: get_nowait_def)
  next
    case (W_count p)
    with assms show ?thesis
      by (auto simp: Let_def split: if_splits)
  qed (use assms in \<open>auto simp: task_done_def split: if_splits\<close>)
  then show "shutdown st' = shutdown st"
    and "found st' = (found st \<or> (\<exists>pw. pc = W_success pw))"
    and "length (queue st') \<le> length (queue st)"
    and "(pc' = W_success pw) = (pc = W_connect pw \<and> oc = Success)"
    by simp_all
qed

lemma put_nowait_Some:
  "put_nowait st x = Some st' \<Longrightarrow>
   queue st' = queue st @ [x] \<and> found st' = found st \<and> shutdown st' = shutdown st \<and>
   attempts st' = attempts st \<and> length (queue st) < queue_maxsize"
  by (auto simp: put_nowait_def split: if_splits)

lemma control_step_rs:
  "rs (control_step now s) = rs s \<or>
   (\<exists>x g'. (ctl s = Fill_put \<or> ctl s = Refill_put) \<and>
      gen_next (shutdown (rs s)) (gen s) = (Yield x, g') \<and>
      put_nowait (rs s) x = Some (rs (control_step now s))) \<or>
   (ctl s = Cleanup \<and> rs (control_step now s) = (rs s)\<lparr>shutdown := True\<rparr>)"
  by (cases "ctl s") (auto split: prod.splits gen_result.splits option.splits)

lemma control_step_workers:
  "workers (control_step now s) = workers s \<or>
   (ctl s = Start_workers \<and>
    workers (control_step now s) = replicate (min MAX_THREADS (length (queue (rs s)))) W_test)"
  by (cases "ctl s") (auto split: prod.splits gen_result.splits option.splits)

lemma control_step_ctl_Fill_put:
  "ctl (control_step now s) = Fill_put \<Longrightarrow> ctl s = Fill_test \<and> length (queue (rs s)) < 1000 \<and> rs (control_step now s) = rs s"
  by (cases "ctl s") (auto split: prod.splits gen_result.splits option.splits if_splits)

lemma control_step_ctl_Refill_put:
  "ctl (control_step now s) = Refill_put \<Longrightarrow> ctl s = Refill_size \<and> length (queue (rs s)) < 500 \<and> rs (control_step now s) = rs s"
  by (cases "ctl s") (auto split: prod.splits gen_result.splits option.splits if_splits)

declare control_step.simps [simp del]

lemma control_step_found:
  "found (rs (control_step now s)) = found (rs s)"
  using control_step_rs [of now s] by (auto dest: put_nowait_Some)

lemma control_step_shutdown:
  "shutdown (rs s) \<Longrightarrow> shutdown (rs (control_step now s))"
  using control_step_rs [of now s] by (auto dest: put_nowait_Some)

lemma exec_Work:
  assumes "i < length (workers s)"
    and "worker_step a oc now jitter (rs s) (workers s ! i) = (st', es, pc')"
  shows "exec a s (Work i oc now jitter) =
           s\<lparr>rs := st', out := out s @ es, workers := (workers s)[i := pc']\<rparr>"
  using assms by simp

lemma exec_Work_out_of_range:
  "\<not> i < length (workers s) \<Longrightarrow> exec a s (Work i oc now jitter) = s"
  by simp

lemma exec_found_mono: "found (rs s) \<Longrightarrow> found (rs (exec a s x))"
proof (cases x)
  case Signal
  then show ?thesis by (simp add: signal_handler_def)
next
  case (Control now)
  assume "found (rs s)"
  with Control show ?thesis by (simp add: control_step_found)
next
  case (Work i oc now jitter)
  assume f: "found (rs s)"
  show ?thesis
  proof (cases "i < length (workers s)")
    case True
    obtain st' es pc' where w: "worker_step a oc now jitter (rs s) (workers s ! i) = (st', es, pc')"
      by (cases "worker_step a oc now jitter (rs s) (workers s ! i)")
    from worker_step_flags(2) [OF w] f have "found st'" by simp
    with Work exec_Work [OF True w] show ?thesis by simp
  next
    case False
    with Work f show ?thesis by simp
  qed
qed

lemma exec_shutdown_mono: "shutdown (rs s) \<Longrightarrow> shutdown (rs (exec a s x))"
proof (cases x)
  case Signal
  then show ?thesis by (simp add: signal_handler_def)
next
  case (Control now)
  assume "shutdown (rs s)"
  with Control show ?thesis by (simp add: control_step_shutdown)
next
  case (Work i oc now jitter)
  assume f: "shutdown (rs s)"
  show ?thesis
  proof (cases "i < length (workers s)")
    case True
    obtain st' es pc' where w: "worker_step a oc now jitter (rs s) (workers s ! i) = (st', es, pc')"
      by (cases "worker_step a oc now jitter (rs s) (workers s ! i)")
    from worker_step_flags(1) [OF w] f have "shutdown st'" by simp
    with Work exec_Work [OF True w] show ?thesis by simp
  next
    case False
    with Work f show ?thesis by simp
  qed
qed

lemma exec_found_rise:
  assumes "\<not> found (rs s)" and "found (rs (exec a s x))"
  shows "x = Signal \<or>
         (\<exists>i oc now jitter pw. x = Work i oc now jitter \<and> i < length (workers s) \<and>
            workers s ! i = W_success pw)"
proof (cases x)
  case Signal
  then show ?thesis by simp
next
  case (Control now)
  with assms show ?thesis by (simp add: control_step_found)
next
  case (Work i oc now jitter)
  show ?thesis
  proof (cases "i < length (workers s)")
    case True
    obtain st' es pc' where w: "worker_step a oc now jitter (rs s) (workers s ! i) = (st', es, pc')"
      by (cases "worker_step a oc now jitter (rs s) (workers s ! i)")
    from assms Work exec_Work [OF True w] have "found st'" by simp
    with worker_step_flags(2) [OF w] assms(1) obtain pw where "workers s ! i = W_success pw"
      by auto
    with Work True show ?thesis by simp
  next
    case False
    with Work assms show ?thesis by simp
  qed
qed

lemma exec_enter_success:
  assumes "i < length (workers (exec a s x))" and "workers (exec a s x) ! i = W_success pw"
    and "\<not> (i < length (workers s) \<and> workers s ! i = W_success pw)"
  shows "(\<exists>now jitter. x = Work i Success now jitter) \<and> i < length (workers s) \<and>
         workers s ! i = W_connect pw"
proof (cases x)
  case Signal
  with assms show ?thesis by (simp add: signal_handler_def)
next
  case (Control now)
  with assms control_step_workers [of now s] show ?thesis
    by auto
next
  case (Work j oc now jitter)
  show ?thesis
  proof (cases "j < length (workers s)")
    case True
    obtain st' es pc' where w: "worker_step a oc now jitter (rs s) (workers s ! j) = (st', es, pc')"
      by (cases "worker_step a oc now jitter (rs s) (workers s ! j)")
    from Work exec_Work [OF True w]
    have e: "workers (exec a s x) = (workers s)[j := pc']" by simp
    with assms have i: "i < length (workers s)" by simp
    have "i = j"
    proof (rule ccontr)
      assume "i \<noteq> j"
      with assms e i show False by simp
    qed
    with assms e i have "pc' = W_success pw"
      by simp
    with worker_step_flags(4) [OF w, of pw] Work i \<open>i = j\<close> show ?thesis by simp
  next
    case False
    with Work assms show ?thesis by simp
  qed
qed

lemma exec_trace_Cons: "\<exists>t. exec_trace a s xs = s # t"
  by (cases xs) simp_all

lemma always_trace:
  assumes step: "\<And>s x. f s \<Longrightarrow> f (exec a s x)"
  shows "f s \<Longrightarrow> \<forall>t \<in> set (exec_trace a s xs). f t"
  by (induction xs arbitrary: s) (auto dest: step)

lemma rises_all_True: "\<forall>b \<in> set bs. b \<Longrightarrow> rises bs = 0"
  by (induction bs rule: rises.induct) auto

lemma rises_trace:
  assumes step: "\<And>s x. f s \<Longrightarrow> f (exec a s x)"
  shows "rises (map f (exec_trace a s xs)) \<le> 1"
proof (induction xs arbitrary: s)
  case Nil
  then show ?case by simp
next
  case (Cons x xs)
  obtain t where t: "exec_trace a (exec a s x) xs = exec a s x # t"
    using exec_trace_Cons by blast
  show ?case
  proof (cases "f (exec a s x)")
    case True
    with always_trace [of f a "exec a s x" xs] step
    have "\<forall>b \<in> set (map f (exec_trace a (exec a s x) xs)). b"
      by auto
    then have "rises (map f (exec_trace a (exec a s x) xs)) = 0"
      by (rule rises_all_True)
    with t show ?thesis by simp
  next
    case False
    with Cons.IH [of "exec a s x"] t show ?thesis by simp
  qed
qed

lemma run_inv_init: "run_inv (init a t0)"
  by (simp add: run_inv_def init_def init_state_def)

lemma control_step_queue:
  "queue (rs (control_step now s)) = queue (rs s) \<or>
   (\<exists>x g'. (ctl s = Fill_put \<or> ctl s = Refill_put) \<and>
      gen_next (shutdown (rs s)) (gen s) = (Yield x, g') \<and>
      queue (rs (control_step now s)) = queue (rs s) @ [x] \<and>
      length (queue (rs s)) < queue_maxsize)"
  using control_step_rs [of now s] by (auto dest: put_nowait_Some)

lemma run_inv_control: 
  assumes "run_inv s"
  shows "run_inv (control_step now s)"
proof -
  from control_step_queue [of now s] assms
  have "length (queue (rs (control_step now s))) \<le> 1000"
    by (auto simp: run_inv_def)
  moreover have "ctl (control_step now s) = Fill_put \<longrightarrow>
      length (queue (rs (control_step now s))) < 1000"
    using control_step_ctl_Fill_put [of now s] by auto
  moreover have "ctl (control_step now s) = Refill_put \<longrightarrow>
      length (queue (rs (control_step now s))) < 500"
    using control_step_ctl_Refill_put [of now s] by auto
  ultimately show ?thesis
    by (simp add: run_inv_def)
qed

lemma exec_Work_queue:
  "length (queue (rs (exec a s (Work i oc now jitter)))) \<le> length (queue (rs s)) \<and>
   ctl (exec a s (Work i oc now jitter)) = ctl s"
proof (cases "i < length (workers s)")
  case True
  obtain st' es pc' where w: "worker_step a oc now jitter (rs s) (workers s ! i) = (st', es, pc')"
    by (cases "worker_step a oc now jitter (rs s) (workers s ! i)")
  from worker_step_flags(3) [OF w] exec_Work [OF True w] show ?thesis by simp
next
  case False
  then show ?thesis by simp
qed

lemma exec_Signal_queue:
  "queue (rs (exec a s Signal)) = queue (rs s) \<and> ctl (exec a s Signal) = ctl s"
  by (simp add: signal_handler_def)

lemma run_inv_exec: 
  assumes "run_inv s"
  shows "run_inv (exec a s x)"
proof (cases x)
  case Signal
  with assms exec_Signal_queue [of a s] show ?thesis
    by (simp add: run_inv_def)
next
  case (Control now)
  with assms show ?thesis by (simp add: run_inv_control)
next
  case (Work i oc now jitter)
  with assms exec_Work_queue [of a s i oc now jitter] show ?thesis
    by (auto simp: run_inv_def)
qed

lemma run_inv_execs: "run_inv s \<Longrightarrow> run_inv (execs a s xs)"
  by (induction xs arbitrary: s) (simp_all add: run_inv_exec)

lemma control_step_Refill_put:
  "ctl s = Refill_put \<Longrightarrow>
   control_step now s =
     (case gen_next (shutdown (rs s)) (gen s) of
        (Yield x, g') \<Rightarrow>
          (case put_nowait (rs s) x of
             Some st' \<Rightarrow> s\<lparr>rs := st', gen := g', ctl := Refill_sleep\<rparr>
           | None \<Rightarrow> s\<lparr>gen := g', ctl := Crashed\<rparr>)
      | (StopIteration, g') \<Rightarrow> s\<lparr>gen := g', ctl := Cleanup\<rparr>
      | (Raise e, g') \<Rightarrow> s\<lparr>gen := g', ctl := Crashed\<rparr>)"
  by (simp add: control_step.simps)

lemma steady_push:
  assumes inv: "run_inv s" and st: "steady (ctl s)"
    and grow: "length (queue (rs s)) < length (queue (rs (exec a s x)))"
  shows "(\<exists>now. x = Control now) \<and> ctl s = Refill_put \<and> length (queue (rs s)) < 500 \<and>
         (\<exists>c g'. gen_next (shutdown (rs s)) (gen s) = (Yield c, g') \<and>
                  queue (rs (exec a s x)) = queue (rs s) @ [c]) \<and>
         ctl (exec a s x) = Refill_sleep"
proof (cases x)
  case Signal
  with grow exec_Signal_queue [of a s] show ?thesis by simp
next
  case (Work i oc now jitter)
  with grow exec_Work_queue [of a s i oc now jitter] show ?thesis by simp
next
  case (Control now)
  with grow have g: "length (queue (rs s)) < length (queue (rs (control_step now s)))"
    by simp
  with control_step_queue [of now s] obtain c g' where
    pc: "ctl s = Fill_put \<or> ctl s = Refill_put"
    and n: "gen_next (shutdown (rs s)) (gen s) = (Yield c, g')"
    and q: "queue (rs (control_step now s)) = queue (rs s) @ [c]"
    and l: "length (queue (rs s)) < queue_maxsize"
    by auto
  from pc st have r: "ctl s = Refill_put" by (auto simp: steady_def)
  with inv have "length (queue (rs s)) < 500" by (simp add: run_inv_def)
  moreover from l have "put_nowait (rs s) c \<noteq> None" by (simp add: put_nowait_def)
  with r n have "ctl (control_step now s) = Refill_sleep"
    by (auto simp: control_step_Refill_put)
  ultimately show ?thesis using Control r n q by simp
qed

lemma stopped_exec:
  assumes "stopped (ctl s)"
  shows "stopped (ctl (exec a s x)) \<and> length (queue (rs (exec a s x))) \<le> length (queue (rs s))"
proof (cases x)
  case Signal
  with assms exec_Signal_queue [of a s] show ?thesis by simp
next
  case (Work i oc now jitter)
  with assms exec_Work_queue [of a s i oc now jitter] show ?thesis by simp
next
  case (Control now)
  from assms have "stopped (ctl (control_step now s)) \<and> queue (rs (control_step now s)) = queue (rs s)"
    by (auto simp: stopped_def control_step.simps)
  with Control show ?thesis by simp
qed

lemma stopped_execs:
  "stopped (ctl s) \<Longrightarrow>
   stopped (ctl (execs a s xs)) \<and> length (queue (rs (execs a s xs))) \<le> length (queue (rs s))"
proof (induction xs arbitrary: s)
  case Nil
  then show ?case by simp
next
  case (Cons x xs)
  from stopped_exec [OF Cons.prems, of a x] Cons.IH [of "exec a s x"] show ?case
    by auto
qed

text \<open>
  Claim C3. On \<open>TransportError\<close>, \<^verbatim>\<open>try_connect\<close> returns false with the state and
  effects of \<^verbatim>\<open>handle_connection_error\<close>, which adds one to \<open>connection_errors\<close>
  (the total) and to \<open>consecutive_errors\<close>; if the incremented \<open>consecutive_errors\<close> is
  at least 3 and the time \<open>now\<close> read at entry is less than 5 seconds after the previous
  \<open>last_error_time\<close>, it resets \<open>consecutive_errors\<close> to 0 and sleeps 10 seconds;
  otherwise it sleeps \<open>2 + jitter\<close> seconds, which lies in \<open>[2, 3)\<close> when the random
  number lies in \<open>[0, 1)\<close>; in both branches \<open>last_error_time\<close> becomes \<open>now\<close>, and the
  flags, the attempts and the queue are untouched.
\<close>

theorem C3_handle_connection_error:
  "(case handle_connection_error st now jitter of
      (st', es) \<Rightarrow>
        try_connect st TransportError now jitter = (False, st', es) \<and>
        connection_errors st' = connection_errors st + 1 \<and>
        last_error_time st' = now \<and>
        (if 3 \<le> consecutive_errors st + 1 \<and> now - last_error_time st < 5
         then consecutive_errors st' = 0 \<and> sleeps es = [10]
         else consecutive_errors st' = consecutive_errors st + 1 \<and>
              sleeps es = [2 + jitter] \<and>
              (0 \<le> jitter \<and> jitter < 1 \<longrightarrow> 2 \<le> 2 + jitter \<and> 2 + jitter < 3)) \<and>
        found st' = found st \<and> shutdown st' = shutdown st \<and> attempts st' = attempts st \<and>
        queue st' = queue st)"
  by (simp add: handle_connection_error_def Let_def MAX_ERRORS_BEFORE_PAUSE_def
      PAUSE_DURATION_def RETRY_DELAY_def)

text \<open>
  A first error at time 50, and a third error 3 seconds after the second, both with
  jitter one half.
\<close>

theorem C3_handle_connection_error_witness:
  "(0::real) \<le> 1 / 2 \<and> (1::real) / 2 < 1 \<and>
   consecutive_errors (fst (handle_connection_error (init_state 0) 50 (1 / 2))) = 1 \<and>
   sleeps (snd (handle_connection_error (init_state 0) 50 (1 / 2))) = [5 / 2] \<and>
   consecutive_errors (fst (handle_connection_error burst_state 103 (1 / 2))) = 0 \<and>
   sleeps (snd (handle_connection_error burst_state 103 (1 / 2))) = [10]"
proof -
  obtain st1 es1 where h1: "handle_connection_error (init_state 0) 50 (1 / 2) = (st1, es1)"
    by (cases "handle_connection_error (init_state 0) 50 (1 / 2)")
  obtain st2 es2 where h2: "handle_connection_error burst_state 103 (1 / 2) = (st2, es2)"
    by (cases "handle_connection_error burst_state 103 (1 / 2)")
  from C3_handle_connection_error [of "init_state 0" 50 "1 / 2"] h1
  have "consecutive_errors st1 = 1 \<and> sleeps es1 = [5 / 2]"
    by (simp add: init_state_def)
  moreover from C3_handle_connection_error [of burst_state 103 "1 / 2"] h2
  have "consecutive_errors st2 = 0 \<and> sleeps es2 = [10]"
    by (simp add: burst_state_def init_state_def)
  ultimately show ?thesis
    using h1 h2 by simp
qed


text \<open>
  Claim C4 fails on the code. In the run \<open>success_run\<close> one candidate is taken from the
  queue and processed to the end with outcome \<open>Success\<close>, and the run finishes with
  \<open>attempts = 0\<close>, reported as such in the final summary. In any state, the step that
  records a success (lines 148--152) leaves \<open>attempts\<close> as it is, while the step taken
  after every other outcome (lines 154--163) adds one.
\<close>

theorem C4_success_not_counted:
  "attempts (rs (execs (cli 1 False False False ''a'') (init (cli 1 False False False ''a'') 0)
      success_run)) = 0 \<and>
   found (rs (execs (cli 1 False False False ''a'') (init (cli 1 False False False ''a'') 0)
      success_run)) \<and>
   workers (execs (cli 1 False False False ''a'') (init (cli 1 False False False ''a'') 0)
      success_run) = [W_exit] \<and>
   ctl (execs (cli 1 False False False ''a'') (init (cli 1 False False False ''a'') 0)
      success_run) = Done \<and>
   out (execs (cli 1 False False False ''a'') (init (cli 1 False False False ''a'') 0)
      success_run) = [Print (Msg_success ''root'' ''a''), Print (Msg_finished 0 0 2)] \<and>
   attempts (fst (worker_step a oc now jitter st (W_success pw))) = attempts st \<and>
   attempts (fst (worker_step a oc now jitter st (W_count pw))) = attempts st + 1"
  by (simp add: success_run_def init_def init_state_def cli_def gen_script_def
      priority_patterns_def PRIORITY_PATTERNS_def build_charset_def control_step.simps
      put_nowait_def get_nowait_def task_done_def MAX_THREADS_def queue_maxsize_def Let_def)

lemmas run_eval =
  init_def init_state_def cli_def gen_script_def priority_patterns_def PRIORITY_PATTERNS_def
  build_charset_def control_step.simps put_nowait_def get_nowait_def task_done_def
  signal_handler_def MAX_THREADS_def queue_maxsize_def Let_def

subsection \<open>After a rejection\<close>








lemma exhausted_state_eval:
  "workers exhausted_state = [W_connect ''a'', W_test] \<and>
   queue (rs exhausted_state) = [''b''] \<and>
   shutdown (rs exhausted_state) \<and> \<not> found (rs exhausted_state) \<and> ctl exhausted_state = Join"
  by (simp add: exhausted_state_def exhausted_run_def run_eval)




text \<open>
  Claim C5. No step of a run resets \<open>found\<close> or \<open>shutdown\<close>. A step that sets \<open>found\<close>
  is the signal handler or the step of a worker recording a success (lines 148--152), and
  a worker comes to record a success only through a connection attempt with outcome
  \<open>Success\<close>. The signal handler sets \<open>shutdown\<close> and \<open>found\<close> together in one step.
  Along any run each of the two flags goes from false to true at most once, and once true
  it is true in every later state.
\<close>

theorem C5_found_flag:
  "(found (rs s) \<longrightarrow> found (rs (exec a s x))) \<and>
   (shutdown (rs s) \<longrightarrow> shutdown (rs (exec a s x))) \<and>
   (\<not> found (rs s) \<and> found (rs (exec a s x)) \<longrightarrow>
      x = Signal \<or>
      (\<exists>j oc now jitter p. x = Work j oc now jitter \<and> j < length (workers s) \<and>
         workers s ! j = W_success p)) \<and>
   (i < length (workers (exec a s x)) \<and> workers (exec a s x) ! i = W_success pw \<and>
    \<not> (i < length (workers s) \<and> workers s ! i = W_success pw) \<longrightarrow>
      (\<exists>now jitter. x = Work i Success now jitter) \<and> i < length (workers s) \<and>
      workers s ! i = W_connect pw) \<and>
   rs (exec a s Signal) = (rs s)\<lparr>shutdown := True, found := True\<rparr> \<and>
   rises (map (found \<circ> rs) (exec_trace a s xs)) \<le> 1 \<and>
   rises (map (shutdown \<circ> rs) (exec_trace a s xs)) \<le> 1 \<and>
   (found (rs s) \<longrightarrow> (\<forall>t \<in> set (exec_trace a s xs). found (rs t))) \<and>
   (shutdown (rs s) \<longrightarrow> (\<forall>t \<in> set (exec_trace a s xs). shutdown (rs t)))"
proof (intro conjI impI)
  show "rs (exec a s Signal) = (rs s)\<lparr>shutdown := True, found := True\<rparr>"
    by (simp add: signal_handler_def)
  show "rises (map (found \<circ> rs) (exec_trace a s xs)) \<le> 1"
    by (rule rises_trace) (simp add: exec_found_mono)
  show "rises (map (shutdown \<circ> rs) (exec_trace a s xs)) \<le> 1"
    by (rule rises_trace) (simp add: exec_shutdown_mono)
  show "\<forall>t \<in> set (exec_trace a s xs). found (rs t)" if "found (rs s)"
    using always_trace [of "found \<circ> rs" a s xs] that by (simp add: exec_found_mono)
  show "\<forall>t \<in> set (exec_trace a s xs). shutdown (rs t)" if "shutdown (rs s)"
    using always_trace [of "shutdown \<circ> rs" a s xs] that by (simp add: exec_shutdown_mono)
qed (auto dest: exec_found_mono exec_shutdown_mono exec_found_rise exec_enter_success)

text \<open>
  After \<open>connect_run\<close> the flag \<open>found\<close> is still false and worker 0 is about to record
  the success; its next step sets the flag. The signal handler sets both flags.
\<close>

theorem C5_found_flag_witness:
  "\<not> found (rs (execs (cli 1 False False False ''a'') (init (cli 1 False False False ''a'') 0)
        connect_run)) \<and>
   workers (execs (cli 1 False False False ''a'') (init (cli 1 False False False ''a'') 0)
        connect_run) ! 0 = W_success ''a'' \<and>
   found (rs (exec (cli 1 False False False ''a'')
        (execs (cli 1 False False False ''a'') (init (cli 1 False False False ''a'') 0)
           connect_run)
        (Work 0 Success 1 0))) \<and>
   found (rs (exec (cli 1 False False False ''a'') (init (cli 1 False False False ''a'') 0)
        Signal)) \<and>
   shutdown (rs (exec (cli 1 False False False ''a'') (init (cli 1 False False False ''a'') 0)
        Signal))"
  using C5_found_flag [of
      "execs (cli 1 False False False ''a'') (init (cli 1 False False False ''a'') 0) connect_run"
      "cli 1 False False False ''a''" "Work 0 Success 1 0" 0 "''a''" "[]"]
  by (simp add: connect_run_def run_eval)

subsection \<open>A run that reaches the steady state\<close>

lemma execs_append: "execs a s (xs @ ys) = execs a (execs a s xs) ys"
  by (induction xs arbitrary: s) simp_all

lemma fill_two_steps:
  assumes "ctl s = Fill_test" and "\<not> shutdown (rs s)" and "length (queue (rs s)) < 1000"
    and "gen s = x # g" and "x \<noteq> Fault"
  shows "ctl (exec a (exec a s (Control t)) (Control t)) = Fill_test \<and>
         \<not> shutdown (rs (exec a (exec a s (Control t)) (Control t))) \<and>
         \<not> found (rs (exec a (exec a s (Control t)) (Control t))) = (\<not> found (rs s)) \<and>
         length (queue (rs (exec a (exec a s (Control t)) (Control t)))) =
           Suc (length (queue (rs s))) \<and>
         gen (exec a (exec a s (Control t)) (Control t)) = g \<and>
         workers (exec a (exec a s (Control t)) (Control t)) = workers s"
  using assms
  by (cases x) (simp_all add: control_step.simps put_nowait_def queue_maxsize_def)

lemma fill_steps:
  "n \<le> length g \<Longrightarrow> Fault \<notin> set g \<Longrightarrow> ctl s = Fill_test \<Longrightarrow> \<not> shutdown (rs s) \<Longrightarrow>
   length (queue (rs s)) + n \<le> 1000 \<Longrightarrow> gen s = g \<Longrightarrow>
   ctl (execs a s (replicate (2 * n) (Control t))) = Fill_test \<and>
   \<not> shutdown (rs (execs a s (replicate (2 * n) (Control t)))) \<and>
   \<not> found (rs (execs a s (replicate (2 * n) (Control t)))) = (\<not> found (rs s)) \<and>
   length (queue (rs (execs a s (replicate (2 * n) (Control t))))) = length (queue (rs s)) + n \<and>
   gen (execs a s (replicate (2 * n) (Control t))) = drop n g \<and>
   workers (execs a s (replicate (2 * n) (Control t))) = workers s"
proof (induction n arbitrary: s g)
  case 0
  then show ?case by simp
next
  case (Suc n)
  from Suc.prems obtain x g' where g: "g = x # g'" and x: "x \<noteq> Fault"
    by (cases g) auto
  let ?s = "exec a (exec a s (Control t)) (Control t)"
  from Suc.prems g x have two:
    "ctl ?s = Fill_test \<and> \<not> shutdown (rs ?s) \<and> \<not> found (rs ?s) = (\<not> found (rs s)) \<and>
     length (queue (rs ?s)) = Suc (length (queue (rs s))) \<and> gen ?s = g' \<and>
     workers ?s = workers s"
    by (intro fill_two_steps) simp_all
  from Suc.prems g two have
    "ctl (execs a ?s (replicate (2 * n) (Control t))) = Fill_test \<and>
     \<not> shutdown (rs (execs a ?s (replicate (2 * n) (Control t)))) \<and>
     \<not> found (rs (execs a ?s (replicate (2 * n) (Control t)))) = (\<not> found (rs ?s)) \<and>
     length (queue (rs (execs a ?s (replicate (2 * n) (Control t))))) =
       length (queue (rs ?s)) + n \<and>
     gen (execs a ?s (replicate (2 * n) (Control t))) = drop n g' \<and>
     workers (execs a ?s (replicate (2 * n) (Control t))) = workers ?s"
    by (intro Suc.IH) simp_all
  with two g show ?case by simp
qed

lemma exec_Work_proj:
  assumes "i < length (workers s)"
    and "worker_step a oc now jitter (rs s) (workers s ! i) = (st', es, pc')"
  shows "rs (exec a s (Work i oc now jitter)) = st' \<and>
         workers (exec a s (Work i oc now jitter)) ! i = pc' \<and>
         length (workers (exec a s (Work i oc now jitter))) = length (workers s) \<and>
         ctl (exec a s (Work i oc now jitter)) = ctl s \<and>
         gen (exec a s (Work i oc now jitter)) = gen s"
  using assms by simp

lemma work_cycle:
  assumes w: "0 < length (workers s)" and pc: "workers s ! 0 = W_test"
    and sd: "\<not> shutdown (rs s)" and fd: "\<not> found (rs s)" and q: "queue (rs s) \<noteq> []"
  shows "workers (execs a s (replicate 6 (Work 0 AuthenticationRejected 1 0))) ! 0 = W_test \<and>
         length (workers (execs a s (replicate 6 (Work 0 AuthenticationRejected 1 0)))) =
           length (workers s) \<and>
         \<not> shutdown (rs (execs a s (replicate 6 (Work 0 AuthenticationRejected 1 0)))) \<and>
         \<not> found (rs (execs a s (replicate 6 (Work 0 AuthenticationRejected 1 0)))) \<and>
         Suc (length (queue (rs (execs a s (replicate 6 (Work 0 AuthenticationRejected 1 0)))))) =
           length (queue (rs s)) \<and>
         ctl (execs a s (replicate 6 (Work 0 AuthenticationRejected 1 0))) = ctl s \<and>
         gen (execs a s (replicate 6 (Work 0 AuthenticationRejected 1 0))) = gen s"
proof -
  let ?w = "Work 0 AuthenticationRejected 1 0"
  define s1 where "s1 = exec a s ?w"
  define s2 where "s2 = exec a s1 ?w"
  define s3 where "s3 = exec a s2 ?w"
  define s4 where "s4 = exec a s3 ?w"
  define s5 where "s5 = exec a s4 ?w"
  define s6 where "s6 = exec a s5 ?w"
  from q obtain p ps where qs: "queue (rs s) = p # ps"
    by (cases "queue (rs s)") auto
  have "worker_step a AuthenticationRejected 1 0 (rs s) (workers s ! 0) = (rs s, [], W_get)"
    using pc sd fd by simp
  from exec_Work_proj [OF w this]
  have 1: "rs s1 = rs s" "workers s1 ! 0 = W_get" "length (workers s1) = length (workers s)"
    "ctl s1 = ctl s" "gen s1 = gen s"
    by (simp_all add: s1_def)
  from 1 w have w1: "0 < length (workers s1)" by simp
  have "worker_step a AuthenticationRejected 1 0 (rs s1) (workers s1 ! 0) =
        ((rs s)\<lparr>queue := ps\<rparr>, [], W_check p)"
    using 1 qs by (simp add: get_nowait_def)
  from exec_Work_proj [OF w1 this]
  have 2: "rs s2 = (rs s)\<lparr>queue := ps\<rparr>" "workers s2 ! 0 = W_check p"
    "length (workers s2) = length (workers s)" "ctl s2 = ctl s" "gen s2 = gen s"
    using 1 by (simp_all add: s2_def)
  from 2 w have w2: "0 < length (workers s2)" by simp
  have "worker_step a AuthenticationRejected 1 0 (rs s2) (workers s2 ! 0) =
        (rs s2, [], W_connect p)"
    using 2 sd fd by simp
  from exec_Work_proj [OF w2 this]
  have 3: "rs s3 = rs s2" "workers s3 ! 0 = W_connect p"
    "length (workers s3) = length (workers s)" "ctl s3 = ctl s" "gen s3 = gen s"
    using 2 by (simp_all add: s3_def)
  from 3 w have w3: "0 < length (workers s3)" by simp
  have "worker_step a AuthenticationRejected 1 0 (rs s3) (workers s3 ! 0) =
        ((rs s3)\<lparr>consecutive_errors := 0\<rparr>, [], W_count p)"
    using 3 by simp
  from exec_Work_proj [OF w3 this]
  have 4: "rs s4 = (rs s3)\<lparr>consecutive_errors := 0\<rparr>" "workers s4 ! 0 = W_count p"
    "length (workers s4) = length (workers s)" "ctl s4 = ctl s" "gen s4 = gen s"
    using 3 by (simp_all add: s4_def)
  from 4 w have w4: "0 < length (workers s4)" by simp
  obtain st5 es5 pc5 where
    ws5: "worker_step a AuthenticationRejected 1 0 (rs s4) (workers s4 ! 0) = (st5, es5, pc5)"
    by (cases "worker_step a AuthenticationRejected 1 0 (rs s4) (workers s4 ! 0)")
  with 4 have st5: "shutdown st5 = shutdown (rs s4)" "found st5 = found (rs s4)"
    "queue st5 = queue (rs s4)" "pc5 = W_task_done"
    by (auto simp: Let_def split: if_splits)
  from exec_Work_proj [OF w4 ws5]
  have 5: "rs s5 = st5" "workers s5 ! 0 = W_task_done"
    "length (workers s5) = length (workers s)" "ctl s5 = ctl s" "gen s5 = gen s"
    using 4 st5 by (simp_all add: s5_def)
  from 5 w have w5: "0 < length (workers s5)" by simp
  have "worker_step a AuthenticationRejected 1 0 (rs s5) (workers s5 ! 0) =
        (task_done st5, [], W_test)"
    using 5 by simp
  from exec_Work_proj [OF w5 this]
  have 6: "rs s6 = task_done st5" "workers s6 ! 0 = W_test"
    "length (workers s6) = length (workers s)" "ctl s6 = ctl s" "gen s6 = gen s"
    using 5 by (simp_all add: s6_def)
  have r: "replicate 6 ?w = [?w, ?w, ?w, ?w, ?w, ?w]"
    by (simp add: numeral_eq_Suc)
  have e: "execs a s (replicate 6 ?w) = s6"
    unfolding r s6_def s5_def s4_def s3_def s2_def s1_def by (simp only: execs.simps)
  from 6 st5 4 3 2 sd fd qs show ?thesis
    unfolding e by (simp add: task_done_def)
qed

lemma work_cycles:
  "m \<le> length (queue (rs s)) \<Longrightarrow> 0 < length (workers s) \<Longrightarrow> workers s ! 0 = W_test \<Longrightarrow>
   \<not> shutdown (rs s) \<Longrightarrow> \<not> found (rs s) \<Longrightarrow>
   workers (execs a s (replicate (6 * m) (Work 0 AuthenticationRejected 1 0))) ! 0 = W_test \<and>
   length (workers (execs a s (replicate (6 * m) (Work 0 AuthenticationRejected 1 0)))) =
     length (workers s) \<and>
   \<not> shutdown (rs (execs a s (replicate (6 * m) (Work 0 AuthenticationRejected 1 0)))) \<and>
   \<not> found (rs (execs a s (replicate (6 * m) (Work 0 AuthenticationRejected 1 0)))) \<and>
   length (queue (rs (execs a s (replicate (6 * m) (Work 0 AuthenticationRejected 1 0))))) + m =
     length (queue (rs s)) \<and>
   ctl (execs a s (replicate (6 * m) (Work 0 AuthenticationRejected 1 0))) = ctl s \<and>
   gen (execs a s (replicate (6 * m) (Work 0 AuthenticationRejected 1 0))) = gen s"
proof (induction m arbitrary: s)
  case 0
  then show ?case by simp
next
  case (Suc m)
  let ?w = "Work 0 AuthenticationRejected 1 0"
  let ?s = "execs a s (replicate 6 ?w)"
  from Suc.prems have "queue (rs s) \<noteq> []" by auto
  with Suc.prems have one:
    "workers ?s ! 0 = W_test \<and> length (workers ?s) = length (workers s) \<and>
     \<not> shutdown (rs ?s) \<and> \<not> found (rs ?s) \<and>
     Suc (length (queue (rs ?s))) = length (queue (rs s)) \<and> ctl ?s = ctl s \<and> gen ?s = gen s"
    by (intro work_cycle) simp_all
  with Suc.prems have
    "workers (execs a ?s (replicate (6 * m) ?w)) ! 0 = W_test \<and>
     length (workers (execs a ?s (replicate (6 * m) ?w))) = length (workers ?s) \<and>
     \<not> shutdown (rs (execs a ?s (replicate (6 * m) ?w))) \<and>
     \<not> found (rs (execs a ?s (replicate (6 * m) ?w))) \<and>
     length (queue (rs (execs a ?s (replicate (6 * m) ?w)))) + m = length (queue (rs ?s)) \<and>
     ctl (execs a ?s (replicate (6 * m) ?w)) = ctl ?s \<and>
     gen (execs a ?s (replicate (6 * m) ?w)) = gen ?s"
    by (intro Suc.IH) simp_all
  moreover have "replicate (6 * Suc m) ?w = replicate 6 ?w @ replicate (6 * m) ?w"
    by (simp add: replicate_add [symmetric])
  ultimately show ?case
    using one by (simp add: execs_append)
qed

lemma gen_script_digits:
  "length (gen_script (cli 3 False False True '''')) = 1009 \<and>
   Fault \<notin> set (gen_script (cli 3 False False True ''''))"
proof
  have "length string_digits = 10"
    by (simp add: string_digits_def)
  then show "length (gen_script (cli 3 False False True '''')) = 1009"
    by (simp add: gen_script_def cli_def priority_patterns_cases length_product_repeat
        build_charset_def)
  show "Fault \<notin> set (gen_script (cli 3 False False True ''''))"
    by (auto simp: gen_script_def cli_def)
qed

lemma steady_run_reaches:
  "ctl (execs (cli 3 False False True '''') (init (cli 3 False False True '''') 0) steady_run) =
     Refill_put \<and>
   length (queue (rs (execs (cli 3 False False True '''') (init (cli 3 False False True '''') 0)
     steady_run))) = 499 \<and>
   (\<exists>c g'. gen_next
      (shutdown (rs (execs (cli 3 False False True '''') (init (cli 3 False False True '''') 0)
         steady_run)))
      (gen (execs (cli 3 False False True '''') (init (cli 3 False False True '''') 0)
         steady_run)) = (Yield c, g'))"
proof -
  let ?a = "cli 3 False False True ''''"
  let ?g = "gen_script ?a"
  let ?w = "Work 0 AuthenticationRejected 1 0"
  define sA where "sA = execs ?a (init ?a 0) (replicate (2 * 1000) (Control 0))"
  define sB where "sB = execs ?a sA [Control 0, Control 0]"
  define sC where "sC = execs ?a sB (replicate (6 * 501) ?w)"
  define sD where "sD = execs ?a sC [Control 0, Control 0]"
  have run: "execs ?a (init ?a 0) steady_run = sD"
    by (simp only: steady_run_def execs_append sA_def sB_def sC_def sD_def)
  from gen_script_digits have len: "1000 \<le> length ?g" and nf: "Fault \<notin> set ?g"
    by simp_all
  have
    "ctl (execs ?a (init ?a 0) (replicate (2 * 1000) (Control 0))) = Fill_test \<and>
     \<not> shutdown (rs (execs ?a (init ?a 0) (replicate (2 * 1000) (Control 0)))) \<and>
     \<not> found (rs (execs ?a (init ?a 0) (replicate (2 * 1000) (Control 0)))) =
       (\<not> found (rs (init ?a 0))) \<and>
     length (queue (rs (execs ?a (init ?a 0) (replicate (2 * 1000) (Control 0))))) =
       length (queue (rs (init ?a 0))) + 1000 \<and>
     gen (execs ?a (init ?a 0) (replicate (2 * 1000) (Control 0))) = drop 1000 ?g \<and>
     workers (execs ?a (init ?a 0) (replicate (2 * 1000) (Control 0))) = workers (init ?a 0)"
    using len nf by (intro fill_steps) (simp_all add: init_def init_state_def)
  then have A: "ctl sA = Fill_test" "\<not> shutdown (rs sA)" "\<not> found (rs sA)"
    "length (queue (rs sA)) = 1000" "gen sA = drop 1000 ?g"
    by (simp_all add: sA_def init_def init_state_def)
  then have B: "ctl sB = Refill_test" "\<not> shutdown (rs sB)" "\<not> found (rs sB)"
    "length (queue (rs sB)) = 1000" "gen sB = drop 1000 ?g" "workers sB = replicate 5 W_test"
    by (simp_all add: sB_def control_step.simps MAX_THREADS_def)
  then have
    "workers (execs ?a sB (replicate (6 * 501) ?w)) ! 0 = W_test \<and>
     length (workers (execs ?a sB (replicate (6 * 501) ?w))) = length (workers sB) \<and>
     \<not> shutdown (rs (execs ?a sB (replicate (6 * 501) ?w))) \<and>
     \<not> found (rs (execs ?a sB (replicate (6 * 501) ?w))) \<and>
     length (queue (rs (execs ?a sB (replicate (6 * 501) ?w)))) + 501 =
       length (queue (rs sB)) \<and>
     ctl (execs ?a sB (replicate (6 * 501) ?w)) = ctl sB \<and>
     gen (execs ?a sB (replicate (6 * 501) ?w)) = gen sB"
    by (intro work_cycles) simp_all
  with B have C: "ctl sC = Refill_test" "\<not> shutdown (rs sC)" "\<not> found (rs sC)"
    "length (queue (rs sC)) = 499" "gen sC = drop 1000 ?g"
    by (simp_all add: sC_def)
  then have D: "ctl sD = Refill_put" "\<not> shutdown (rs sD)"
    "length (queue (rs sD)) = 499" "gen sD = drop 1000 ?g"
    by (simp_all add: sD_def control_step.simps)
  from gen_script_digits have "1000 < length ?g" by simp
  then have "drop 1000 ?g = ?g ! 1000 # drop 1001 ?g"
    using Cons_nth_drop_Suc [of 1000 ?g] by simp
  moreover have "?g ! 1000 \<noteq> Fault"
  proof
    assume "?g ! 1000 = Fault"
    moreover from \<open>1000 < length ?g\<close> have "?g ! 1000 \<in> set ?g"
      by (rule nth_mem)
    ultimately have "Fault \<in> set ?g"
      by simp
    with nf show False ..
  qed
  ultimately have "\<exists>c g'. gen_next False (gen sD) = (Yield c, g')"
    using D by (cases "?g ! 1000") simp_all
  with D show ?thesis
    unfolding run by simp
qed

text \<open>
  Claim C6. Every state of a run satisfies the invariant \<open>run_inv\<close>, so the queue holds
  at most 5000 (in fact at most 1000) candidates, and 5000 is the capacity of the queue.
  In the steady state, a step that makes the queue longer is a step of the control thread
  at line 191, taken with fewer than 500 items in the queue; it appends exactly the one
  candidate the generator yields and leads to the sleep of line 194. The test of line 189
  leads to the put below 500 items and straight to the sleep otherwise; the sleep lasts a
  tenth of a second and leads back to the head of the loop. When the generator is
  exhausted at line 191, the control thread leaves the loop without a put, and after the
  loop the queue never grows again.
\<close>

theorem C6_queue_bounds:
  "run_inv (execs a (init a t0) xs) \<and>
   length (queue (rs (execs a (init a t0) xs))) \<le> 5000 \<and>
   queue_maxsize = 5000 \<and>
   (run_inv s \<longrightarrow> run_inv (exec a s x) \<and> length (queue (rs s)) \<le> 5000) \<and>
   (run_inv s \<and> steady (ctl s) \<and> length (queue (rs s)) < length (queue (rs (exec a s x))) \<longrightarrow>
      (\<exists>now. x = Control now) \<and> ctl s = Refill_put \<and> length (queue (rs s)) < 500 \<and>
      (\<exists>c g'. gen_next (shutdown (rs s)) (gen s) = (Yield c, g') \<and>
               queue (rs (exec a s x)) = queue (rs s) @ [c]) \<and>
      ctl (exec a s x) = Refill_sleep) \<and>
   (ctl s = Refill_size \<longrightarrow>
      exec a s (Control now) =
        s\<lparr>ctl := if length (queue (rs s)) < 500 then Refill_put else Refill_sleep\<rparr>) \<and>
   (ctl s = Refill_sleep \<longrightarrow>
      exec a s (Control now) = s\<lparr>out := out s @ [Sleep (1 / 10)], ctl := Refill_test\<rparr>) \<and>
   (ctl s = Refill_put \<and> fst (gen_next (shutdown (rs s)) (gen s)) = StopIteration \<longrightarrow>
      ctl (exec a s (Control now)) = Cleanup \<and> rs (exec a s (Control now)) = rs s) \<and>
   (stopped (ctl s) \<longrightarrow>
      stopped (ctl (execs a s ys)) \<and>
      length (queue (rs (execs a s ys))) \<le> length (queue (rs s)))"
proof (intro conjI impI)
  show i: "run_inv (execs a (init a t0) xs)"
    by (simp add: run_inv_init run_inv_execs)
  then show "length (queue (rs (execs a (init a t0) xs))) \<le> 5000"
    by (simp add: run_inv_def)
  show "queue_maxsize = 5000"
    by (simp add: queue_maxsize_def)
  show "run_inv (exec a s x)" if "run_inv s"
    using that by (rule run_inv_exec)
  show "length (queue (rs s)) \<le> 5000" if "run_inv s"
    using that by (simp add: run_inv_def)
  show "exec a s (Control now) =
      s\<lparr>ctl := if length (queue (rs s)) < 500 then Refill_put else Refill_sleep\<rparr>"
    if "ctl s = Refill_size"
    using that by (simp add: control_step.simps)
  show "exec a s (Control now) = s\<lparr>out := out s @ [Sleep (1 / 10)], ctl := Refill_test\<rparr>"
    if "ctl s = Refill_sleep"
    using that by (simp add: control_step.simps)
  show "ctl (exec a s (Control now)) = Cleanup"
    if "ctl s = Refill_put \<and> fst (gen_next (shutdown (rs s)) (gen s)) = StopIteration"
    using that by (cases "gen_next (shutdown (rs s)) (gen s)") (simp add: control_step_Refill_put)
  show "rs (exec a s (Control now)) = rs s"
    if "ctl s = Refill_put \<and> fst (gen_next (shutdown (rs s)) (gen s)) = StopIteration"
    using that by (cases "gen_next (shutdown (rs s)) (gen s)") (simp add: control_step_Refill_put)
  show "stopped (ctl (execs a s ys))" if "stopped (ctl s)"
    using stopped_execs [OF that] by simp
  show "length (queue (rs (execs a s ys))) \<le> length (queue (rs s))" if "stopped (ctl s)"
    using stopped_execs [OF that] by simp
qed (use steady_push [of s a x] in auto)

text \<open>
  The state \<open>steady_state\<close> is in the steady state with 499 items in the queue, about to
  put; the step of the control thread makes the queue longer and leads to the sleep.
\<close>

theorem C6_queue_bounds_witness:
  "run_inv steady_state \<and> steady (ctl steady_state) \<and>
   length (queue (rs steady_state)) <
     length (queue (rs (exec (cli 3 False False True '''') steady_state (Control 0)))) \<and>
   ctl steady_state = Refill_put \<and>
   length (queue (rs steady_state)) = 499 \<and>
   ctl (exec (cli 3 False False True '''') steady_state (Control 0)) = Refill_sleep"
proof -
  let ?a = "cli 3 False False True ''''"
  from steady_run_reaches obtain c g' where r: "ctl steady_state = Refill_put"
    and l: "length (queue (rs steady_state)) = 499"
    and n: "gen_next (shutdown (rs steady_state)) (gen steady_state) = (Yield c, g')"
    unfolding steady_state_def by blast
  from r n l have "queue (rs (exec ?a steady_state (Control 0))) = queue (rs steady_state) @ [c]"
    by (simp add: control_step_Refill_put put_nowait_def queue_maxsize_def)
  then have grow: "length (queue (rs steady_state)) <
      length (queue (rs (exec ?a steady_state (Control 0))))"
    by simp
  from r have st: "steady (ctl steady_state)"
    by (simp add: steady_def)
  note inst = C6_queue_bounds [of ?a 0 steady_run steady_state "Control 0" 0 "[]"]
  from inst have inv: "run_inv steady_state"
    unfolding steady_state_def by blast
  with inst st grow have "ctl (exec ?a steady_state (Control 0)) = Refill_sleep"
    by blast
  with inv st grow r l show ?thesis
    by blast
qed

section \<open>Repeated candidates are attempted again\<close>

lemma probes_append: "probes a s (xs @ ys) = probes a s xs @ probes a (execs a s xs) ys"
  by (induction xs arbitrary: s) simp_all

lemma probes_Control: "probes a s (replicate k (Control t)) = []"
  by (induction k arbitrary: s) simp_all

lemma fill_two_steps_queue:
  assumes "ctl s = Fill_test" and "\<not> shutdown (rs s)" and "length (queue (rs s)) < 1000"
    and "gen s = x # g" and "x \<noteq> Fault"
  shows "queue (rs (exec a (exec a s (Control t)) (Control t))) = queue (rs s) @ [item_value x]"
  using assms
  by (cases x) (simp_all add: control_step.simps put_nowait_def queue_maxsize_def)

lemma fill_steps_queue:
  "n \<le> length g \<Longrightarrow> Fault \<notin> set g \<Longrightarrow> ctl s = Fill_test \<Longrightarrow> \<not> shutdown (rs s) \<Longrightarrow>
   length (queue (rs s)) + n \<le> 1000 \<Longrightarrow> gen s = g \<Longrightarrow>
   queue (rs (execs a s (replicate (2 * n) (Control t)))) =
     queue (rs s) @ map item_value (take n g)"
proof (induction n arbitrary: s g)
  case 0
  then show ?case by simp
next
  case (Suc n)
  from Suc.prems obtain x g' where g: "g = x # g'" and x: "x \<noteq> Fault"
    by (cases g) auto
  let ?s = "exec a (exec a s (Control t)) (Control t)"
  from Suc.prems g x have two:
    "ctl ?s = Fill_test \<and> \<not> shutdown (rs ?s) \<and> \<not> found (rs ?s) = (\<not> found (rs s)) \<and>
     length (queue (rs ?s)) = Suc (length (queue (rs s))) \<and> gen ?s = g' \<and>
     workers ?s = workers s"
    by (intro fill_two_steps) simp_all
  from Suc.prems g x have q: "queue (rs ?s) = queue (rs s) @ [item_value x]"
    by (intro fill_two_steps_queue) simp_all
  from Suc.prems g two have
    "queue (rs (execs a ?s (replicate (2 * n) (Control t)))) =
       queue (rs ?s) @ map item_value (take n g')"
    by (intro Suc.IH) simp_all
  with q g show ?case by simp
qed

lemma work_cycle_probe:
  assumes w: "0 < length (workers s)" and pc: "workers s ! 0 = W_test"
    and sd: "\<not> shutdown (rs s)" and fd: "\<not> found (rs s)" and qs: "queue (rs s) = p # ps"
  shows "probes a s (replicate 6 (Work 0 AuthenticationRejected 1 0)) = [p] \<and>
         queue (rs (execs a s (replicate 6 (Work 0 AuthenticationRejected 1 0)))) = ps"
proof -
  let ?w = "Work 0 AuthenticationRejected 1 0"
  define s1 where "s1 = exec a s ?w"
  define s2 where "s2 = exec a s1 ?w"
  define s3 where "s3 = exec a s2 ?w"
  define s4 where "s4 = exec a s3 ?w"
  define s5 where "s5 = exec a s4 ?w"
  define s6 where "s6 = exec a s5 ?w"
  have "worker_step a AuthenticationRejected 1 0 (rs s) (workers s ! 0) = (rs s, [], W_get)"
    using pc sd fd by simp
  from exec_Work_proj [OF w this]
  have 1: "rs s1 = rs s" "workers s1 ! 0 = W_get" "length (workers s1) = length (workers s)"
    by (simp_all add: s1_def)
  from 1 w have w1: "0 < length (workers s1)" by simp
  have "worker_step a AuthenticationRejected 1 0 (rs s1) (workers s1 ! 0) =
        ((rs s)\<lparr>queue := ps\<rparr>, [], W_check p)"
    using 1 qs by (simp add: get_nowait_def)
  from exec_Work_proj [OF w1 this]
  have 2: "rs s2 = (rs s)\<lparr>queue := ps\<rparr>" "workers s2 ! 0 = W_check p"
    "length (workers s2) = length (workers s)"
    using 1 by (simp_all add: s2_def)
  from 2 w have w2: "0 < length (workers s2)" by simp
  have "worker_step a AuthenticationRejected 1 0 (rs s2) (workers s2 ! 0) =
        (rs s2, [], W_connect p)"
    using 2 sd fd by simp
  from exec_Work_proj [OF w2 this]
  have 3: "rs s3 = rs s2" "workers s3 ! 0 = W_connect p"
    "length (workers s3) = length (workers s)"
    using 2 by (simp_all add: s3_def)
  from 3 w have w3: "0 < length (workers s3)" by simp
  have "worker_step a AuthenticationRejected 1 0 (rs s3) (workers s3 ! 0) =
        ((rs s3)\<lparr>consecutive_errors := 0\<rparr>, [], W_count p)"
    using 3 by simp
  from exec_Work_proj [OF w3 this]
  have 4: "rs s4 = (rs s3)\<lparr>consecutive_errors := 0\<rparr>" "workers s4 ! 0 = W_count p"
    "length (workers s4) = length (workers s)"
    using 3 by (simp_all add: s4_def)
  from 4 w have w4: "0 < length (workers s4)" by simp
  obtain st5 es5 pc5 where
    ws5: "worker_step a AuthenticationRejected 1 0 (rs s4) (workers s4 ! 0) = (st5, es5, pc5)"
    by (cases "worker_step a AuthenticationRejected 1 0 (rs s4) (workers s4 ! 0)")
  with 4 have st5: "queue st5 = queue (rs s4)" "pc5 = W_task_done"
    by (auto simp: Let_def split: if_splits)
  from exec_Work_proj [OF w4 ws5]
  have 5: "rs s5 = st5" "workers s5 ! 0 = W_task_done"
    "length (workers s5) = length (workers s)"
    using 4 st5 by (simp_all add: s5_def)
  from 5 w have w5: "0 < length (workers s5)" by simp
  have "worker_step a AuthenticationRejected 1 0 (rs s5) (workers s5 ! 0) =
        (task_done st5, [], W_test)"
    using 5 by simp
  from exec_Work_proj [OF w5 this]
  have 6: "rs s6 = task_done st5"
    by (simp_all add: s6_def)
  have r: "replicate 6 ?w = [?w, ?w, ?w, ?w, ?w, ?w]"
    by (simp add: numeral_eq_Suc)
  have e: "execs a s (replicate 6 ?w) = s6"
    unfolding r s6_def s5_def s4_def s3_def s2_def s1_def by (simp only: execs.simps)
  have p0: "probed s ?w = []" using w pc by simp
  have p1: "probed s1 ?w = []" using w1 1 by simp
  have p2: "probed s2 ?w = []" using w2 2 by simp
  have p3: "probed s3 ?w = [p]" using w3 3 by simp
  have p4: "probed s4 ?w = []" using w4 4 by simp
  have p5: "probed s5 ?w = []" using w5 5 by simp
  have "probes a s (replicate 6 ?w) =
      probed s ?w @ probed s1 ?w @ probed s2 ?w @ probed s3 ?w @ probed s4 ?w @ probed s5 ?w @ []"
    unfolding r s5_def s4_def s3_def s2_def s1_def by (simp only: probes.simps)
  then have "probes a s (replicate 6 ?w) = [p]"
    by (simp only: p0 p1 p2 p3 p4 p5 append_Nil append_Nil2)
  moreover from 6 st5 4 3 2 have "queue (rs s6) = ps"
    by (simp add: task_done_def)
  ultimately show ?thesis
    unfolding e by simp
qed

lemma work_cycles_probe:
  "m \<le> length (queue (rs s)) \<Longrightarrow> 0 < length (workers s) \<Longrightarrow> workers s ! 0 = W_test \<Longrightarrow>
   \<not> shutdown (rs s) \<Longrightarrow> \<not> found (rs s) \<Longrightarrow>
   probes a s (replicate (6 * m) (Work 0 AuthenticationRejected 1 0)) = take m (queue (rs s)) \<and>
   queue (rs (execs a s (replicate (6 * m) (Work 0 AuthenticationRejected 1 0)))) =
     drop m (queue (rs s))"
proof (induction m arbitrary: s)
  case 0
  then show ?case by simp
next
  case (Suc m)
  let ?w = "Work 0 AuthenticationRejected 1 0"
  let ?s = "execs a s (replicate 6 ?w)"
  from Suc.prems obtain p ps where q: "queue (rs s) = p # ps"
    by (cases "queue (rs s)") auto
  with Suc.prems have one:
    "workers ?s ! 0 = W_test \<and> length (workers ?s) = length (workers s) \<and>
     \<not> shutdown (rs ?s) \<and> \<not> found (rs ?s) \<and>
     Suc (length (queue (rs ?s))) = length (queue (rs s)) \<and> ctl ?s = ctl s \<and> gen ?s = gen s"
    by (intro work_cycle) simp_all
  from Suc.prems q have pr: "probes a s (replicate 6 ?w) = [p] \<and> queue (rs ?s) = ps"
    by (intro work_cycle_probe) simp_all
  from Suc.prems one have
    "probes a ?s (replicate (6 * m) ?w) = take m (queue (rs ?s)) \<and>
     queue (rs (execs a ?s (replicate (6 * m) ?w))) = drop m (queue (rs ?s))"
    by (intro Suc.IH) simp_all
  moreover have "replicate (6 * Suc m) ?w = replicate 6 ?w @ replicate (6 * m) ?w"
    by (simp add: replicate_add [symmetric])
  ultimately show ?case
    using pr q by (simp add: execs_append probes_append)
qed

lemma item_value_gen_script:
  "0 \<le> length_arg a \<Longrightarrow>
   map item_value (gen_script a) =
     priority_patterns a @ product_repeat (build_charset a) (nat (length_arg a))"
  by (simp add: gen_script_def comp_def)

lemma odometer_digits_123: "odometer string_digits 3 123 = ''123''"
proof -
  have l: "length string_digits = 10"
    by (simp add: string_digits_def)
  have u: "[0..<3] = [0, 1, 2::nat]"
    by (simp add: upt_conv_Cons numeral_3_eq_3)
  have "odometer string_digits 3 123 =
      map (\<lambda>j. string_digits ! ((123 div 10 ^ (3 - 1 - j)) mod 10)) [0, 1, 2]"
    by (simp only: odometer_def l u)
  also have "\<dots> = [string_digits ! 1, string_digits ! 2, string_digits ! 3]"
    by simp
  also have "\<dots> = ''123''"
    by (simp add: string_digits_def)
  finally show ?thesis .
qed

lemma take_501_digits:
  "take 501 (fst (optimized_generator (cli 3 False False True '''') never)) =
     [''AAA'', ''BBB'', ''CCC'', ''ADM'', ''PWD'', ''SYS'', ''ADM'', ''123'', ''QWE''] @
     take 492 (product_repeat string_digits 3)"
  by (simp add: optimized_generator_never priority_patterns_cases cli_def build_charset_def)

lemma digits_123_early: "''123'' \<in> set (take 492 (product_repeat string_digits 3))"
proof -
  have l: "length string_digits = 10"
    by (simp add: string_digits_def)
  then have "product_repeat string_digits 3 ! 123 = odometer string_digits 3 123"
    by (intro product_repeat_nth) simp
  then have n: "product_repeat string_digits 3 ! 123 = ''123''"
    by (simp only: odometer_digits_123)
  have "(123::nat) < length (take 492 (product_repeat string_digits 3))"
    using l by (simp add: length_product_repeat)
  then have "take 492 (product_repeat string_digits 3) ! 123 \<in>
      set (take 492 (product_repeat string_digits 3))"
    by (rule nth_mem)
  then show ?thesis
    using n by simp
qed

lemma steady_run_probes:
  "probes (cli 3 False False True '''') (init (cli 3 False False True '''') 0) steady_run =
     take 501 (fst (optimized_generator (cli 3 False False True '''') never))"
proof -
  let ?a = "cli 3 False False True ''''"
  let ?g = "gen_script ?a"
  let ?c = "Control 0"
  let ?w = "Work 0 AuthenticationRejected 1 0"
  define sA where "sA = execs ?a (init ?a 0) (replicate (2 * 1000) ?c)"
  define sB where "sB = execs ?a sA [?c, ?c]"
  define sC where "sC = execs ?a sB (replicate (6 * 501) ?w)"
  have pr: "probes ?a (init ?a 0) steady_run =
      probes ?a (init ?a 0) (replicate (2 * 1000) ?c) @ probes ?a sA [?c, ?c] @
      probes ?a sB (replicate (6 * 501) ?w) @ probes ?a sC [?c, ?c]"
    by (simp only: steady_run_def probes_append execs_append sA_def sB_def sC_def)
  have c2: "\<And>s. probes ?a s [?c, ?c] = []"
    by simp
  from gen_script_digits have len: "1000 \<le> length ?g" and nf: "Fault \<notin> set ?g"
    by simp_all
  have
    "ctl (execs ?a (init ?a 0) (replicate (2 * 1000) ?c)) = Fill_test \<and>
     \<not> shutdown (rs (execs ?a (init ?a 0) (replicate (2 * 1000) ?c))) \<and>
     \<not> found (rs (execs ?a (init ?a 0) (replicate (2 * 1000) ?c))) =
       (\<not> found (rs (init ?a 0))) \<and>
     length (queue (rs (execs ?a (init ?a 0) (replicate (2 * 1000) ?c)))) =
       length (queue (rs (init ?a 0))) + 1000 \<and>
     gen (execs ?a (init ?a 0) (replicate (2 * 1000) ?c)) = drop 1000 ?g \<and>
     workers (execs ?a (init ?a 0) (replicate (2 * 1000) ?c)) = workers (init ?a 0)"
    using len nf by (intro fill_steps) (simp_all add: init_def init_state_def)
  then have A: "ctl sA = Fill_test" "\<not> shutdown (rs sA)" "\<not> found (rs sA)"
    "length (queue (rs sA)) = 1000"
    by (simp_all add: sA_def init_def init_state_def)
  have "queue (rs (execs ?a (init ?a 0) (replicate (2 * 1000) ?c))) =
      queue (rs (init ?a 0)) @ map item_value (take 1000 ?g)"
    using len nf by (intro fill_steps_queue) (simp_all add: init_def init_state_def)
  then have qA: "queue (rs sA) = map item_value (take 1000 ?g)"
    by (simp add: sA_def init_def init_state_def)
  from A have B: "\<not> shutdown (rs sB)" "\<not> found (rs sB)" "queue (rs sB) = queue (rs sA)"
    "workers sB = replicate 5 W_test"
    by (simp_all add: sB_def control_step.simps MAX_THREADS_def)
  with A have
    "probes ?a sB (replicate (6 * 501) ?w) = take 501 (queue (rs sB)) \<and>
     queue (rs (execs ?a sB (replicate (6 * 501) ?w))) = drop 501 (queue (rs sB))"
    by (intro work_cycles_probe) simp_all
  with B qA have "probes ?a sB (replicate (6 * 501) ?w) = take 501 (map item_value ?g)"
    by (simp add: take_map)
  moreover have "map item_value ?g = fst (optimized_generator ?a never)"
    by (simp add: item_value_gen_script optimized_generator_never cli_def)
  ultimately show ?thesis
    unfolding pr by (simp only: probes_Control c2 append_Nil append_Nil2)
qed

lemma steady_run_probes_twice:
  "2 \<le> count_list
      (probes (cli 3 False False True '''') (init (cli 3 False False True '''') 0) steady_run)
      ''ADM'' \<and>
   2 \<le> count_list
      (probes (cli 3 False False True '''') (init (cli 3 False False True '''') 0) steady_run)
      ''123''"
proof -
  from digits_123_early have "1 \<le> count_list (take 492 (product_repeat string_digits 3)) ''123''"
    using count_list_0_iff [of "take 492 (product_repeat string_digits 3)" "''123''"] by simp
  then show ?thesis
    unfolding steady_run_probes take_501_digits by simp
qed

text \<open>
  Claim C10. The table for length 3 lists \<open>ADM\<close> twice, so every run of length 3 yields
  it at least twice; and a priority pattern made of characters of the active character
  set is yielded again by the exhaustive enumeration, so that it occurs at least twice
  in the output of a run that is not cancelled. A candidate yielded twice is attempted
  twice: in the run \<open>steady_run\<close> of \<^verbatim>\<open>target root 3 --digits\<close>, in which every attempt
  is rejected, the connection attempts are the first 501 candidates of the generator in
  order, and both \<open>ADM\<close> and \<open>123\<close> are attempted at least twice.
\<close>

theorem C10_repeated_candidates:
  "(\<exists>ps. PRIORITY_PATTERNS 3 = Some ps \<and> count_list ps ''ADM'' = 2) \<and>
   (length_arg a = 3 \<longrightarrow> 2 \<le> count_list (fst (optimized_generator a sd)) ''ADM'') \<and>
   (p \<in> set (priority_patterns a) \<longrightarrow> set p \<subseteq> set (build_charset a) \<longrightarrow>
      fst (optimized_generator a never) =
        priority_patterns a @ product_repeat (build_charset a) (nat (length_arg a)) \<and>
      p \<in> set (product_repeat (build_charset a) (nat (length_arg a))) \<and>
      2 \<le> count_list (fst (optimized_generator a never)) p) \<and>
   probes (cli 3 False False True '''') (init (cli 3 False False True '''') 0) steady_run =
     take 501 (fst (optimized_generator (cli 3 False False True '''') never)) \<and>
   2 \<le> count_list (probes (cli 3 False False True '''') (init (cli 3 False False True '''') 0) steady_run) ''ADM'' \<and>
   2 \<le> count_list (probes (cli 3 False False True '''') (init (cli 3 False False True '''') 0) steady_run) ''123''"
proof (intro conjI impI)
  show "probes (cli 3 False False True '''') (init (cli 3 False False True '''') 0) steady_run =
      take 501 (fst (optimized_generator (cli 3 False False True '''') never))"
    by (rule steady_run_probes)
  show "2 \<le> count_list (probes (cli 3 False False True '''') (init (cli 3 False False True '''') 0) steady_run) ''ADM''"
    using steady_run_probes_twice by blast
  show "2 \<le> count_list (probes (cli 3 False False True '''') (init (cli 3 False False True '''') 0) steady_run) ''123''"
    using steady_run_probes_twice by blast
  show "\<exists>ps. PRIORITY_PATTERNS 3 = Some ps \<and> count_list ps ''ADM'' = 2"
    by (simp add: PRIORITY_PATTERNS_def)
next
  assume l: "length_arg a = 3"
  then obtain ys where "optimized_generator a sd = (priority_patterns a @ ys, None)"
    using optimized_generator_split [of a sd] by auto
  with l show "2 \<le> count_list (fst (optimized_generator a sd)) ''ADM''"
    by (simp add: priority_patterns_cases)
next
  assume p: "p \<in> set (priority_patterns a)" and sub: "set p \<subseteq> set (build_charset a)"
  from p have l: "length_arg a = 3" and len: "length p = 3"
    by (auto simp: priority_patterns_cases split: if_splits)
  from l show g: "fst (optimized_generator a never) =
      priority_patterns a @ product_repeat (build_charset a) (nat (length_arg a))"
    by (simp add: optimized_generator_never)
  from l len sub show m: "p \<in> set (product_repeat (build_charset a) (nat (length_arg a)))"
    by (simp add: set_product_repeat)
  from p have "1 \<le> count_list (priority_patterns a) p"
    using count_list_0_iff [of "priority_patterns a" p] by simp
  moreover from m have "1 \<le> count_list (product_repeat (build_charset a) (nat (length_arg a))) p"
    using count_list_0_iff [of "product_repeat (build_charset a) (nat (length_arg a))" p] by simp
  ultimately show "2 \<le> count_list (fst (optimized_generator a never)) p"
    by (simp add: g)
qed

text \<open>The pattern \<open>123\<close> with the digits, and \<open>ADM\<close>, at length 3.\<close>

theorem C10_repeated_candidates_witness:
  "''123'' \<in> set (priority_patterns (cli 3 False False True '''')) \<and>
   set ''123'' \<subseteq> set (build_charset (cli 3 False False True '''')) \<and>
   length_arg (cli 3 False False True '''') = 3 \<and>
   2 \<le> count_list (fst (optimized_generator (cli 3 False False True '''') never)) ''123'' \<and>
   2 \<le> count_list (fst (optimized_generator (cli 3 False False True '''') never)) ''ADM''"
proof -
  have h1: "''123'' \<in> set (priority_patterns (cli 3 False False True ''''))"
    by (simp add: priority_patterns_cases cli_def)
  have h2: "set ''123'' \<subseteq> set (build_charset (cli 3 False False True ''''))"
    by (simp add: build_charset_def cli_def string_digits_def)
  have h3: "length_arg (cli 3 False False True '''') = 3"
    by (simp add: cli_def)
  show ?thesis
    using h1 h2 h3 C10_repeated_candidates [of "cli 3 False False True ''''" never "''123''"]
    by blast
qed

end
